theory Spec2Isabelle
  imports Main "HOL-Library.Sublist"
begin

text \<open>
  A shallow embedding of the watch-mode invalidation of ng-packagr
  (\<^verbatim>\<open>invalidateEntryPointsAndCacheOnFileChange\<close>) and of its caching compiler host
  (\<^verbatim>\<open>cacheCompilerHost\<close> in \<^verbatim>\<open>lib/ts/cache-compiler-host.ts\<close>): objects live in an arena,
  mutation is state passing, exceptions are values, and the calls of the collaborators
  are recorded.
\<close>

section \<open>JavaScript strings, Map and Set\<close>

text \<open>
  \<^verbatim>\<open>s.endsWith(t)\<close> and \<^verbatim>\<open>s.includes(t)\<close> on strings.
\<close>

definition endsWith :: "string \<Rightarrow> string \<Rightarrow> bool" where
  "endsWith s searchString = suffix searchString s"

definition str_includes :: "string \<Rightarrow> string \<Rightarrow> bool" where
  "str_includes s searchString = sublist searchString s"

text \<open>
  A JavaScript \<^verbatim>\<open>Map\<close> iterates in insertion order, and \<^verbatim>\<open>set\<close> on a key that is
  present replaces the value where the key stands: an association list, updated in place
  or extended at the end. A \<^verbatim>\<open>Set\<close> is the list of its elements in insertion order.
\<close>

fun Map_set :: "'k \<Rightarrow> 'v \<Rightarrow> ('k \<times> 'v) list \<Rightarrow> ('k \<times> 'v) list" where
  "Map_set k v [] = [(k, v)]"
| "Map_set k v ((k', v') # m) = (if k = k' then (k, v) # m else (k', v') # Map_set k v m)"

definition Set_add :: "'a \<Rightarrow> 'a list \<Rightarrow> 'a list" where
  "Set_add x s = (if x \<in> set s then s else s @ [x])"

section \<open>Data model\<close>

text \<open>
  Node objects live in an arena and are addressed by their index; a \<^verbatim>\<open>Set<Node>\<close> is a
  list of such references, so that membership is identity of objects, as in the source.
\<close>

type_synonym ref = nat

text \<open>
  Modelled from the spec: \<^verbatim>\<open>graph/node.ts\<close> is not among the source files. The spec names
  the state PENDING and leaves every other state to the orchestrator.
\<close>

datatype STATE = STATE_PENDING | STATE_OTHER string

datatype SourceFile = SourceFile string string

text \<open>
  Modelled from the spec: \<^verbatim>\<open>file-system/file-cache.ts\<close> is not among the source files.
  An entry holds an existence flag, the parsed unit and the raw content, each unknown
  (\<^verbatim>\<open>undefined\<close>) until populated; \<^verbatim>\<open>getOrCreate\<close> creates an empty entry if absent
  and \<^verbatim>\<open>delete\<close> removes the entry, a no-op if absent.
\<close>

record CacheEntry =
  exists :: "bool option"
  sourceFile :: "SourceFile option"
  content :: "string option"

type_synonym FileCache = "string \<rightharpoonup> CacheEntry"

definition emptyEntry :: CacheEntry where
  "emptyEntry = \<lparr>exists = None, sourceFile = None, content = None\<rparr>"

definition getOrCreate :: "string \<Rightarrow> FileCache \<Rightarrow> CacheEntry \<times> FileCache" where
  "getOrCreate fileName c =
     (case c fileName of
        Some entry \<Rightarrow> (entry, c)
      | None \<Rightarrow> (emptyEntry, c(fileName \<mapsto> emptyEntry)))"

definition FileCache_delete :: "string \<Rightarrow> FileCache \<Rightarrow> FileCache" where
  "FileCache_delete fileName c = c(fileName := None)"

text \<open>The value stored by \<^verbatim>\<open>writeFile\<close> in the output cache: content and version.\<close>

record OutputCacheEntry =
  emitted :: string
  version :: string

text \<open>
  The stylesheet processor is a collaborator outside the source files. \<^verbatim>\<open>invalidate\<close>
  answers with the affected files or \<^verbatim>\<open>undefined\<close>; \<^verbatim>\<open>bundleFile\<close> answers with the
  bundle (absent \<^verbatim>\<open>errors\<close> and \<^verbatim>\<open>warnings\<close> are the empty list: the source only asks
  whether their length is positive).
\<close>

record BundleResult =
  referencedFiles :: "string list"
  contents :: string
  errors :: "string list"
  warnings :: "string list"

record StylesheetProcessor =
  invalidate :: "string list \<Rightarrow> string list option"
  bundleFile :: "string \<Rightarrow> BundleResult"

record EntryPointCache =
  analysesSourcesFileCache :: FileCache
  outputCache :: "string \<rightharpoonup> OutputCacheEntry"
  stylesheetProcessor :: "StylesheetProcessor option"

text \<open>
  Modelled from the spec: \<^verbatim>\<open>graph/node.ts\<close> and \<^verbatim>\<open>ng-package/nodes.ts\<close> are not among
  the source files. A node has its identifier, the set \<open>dependents\<close> of the nodes it
  depends on, the set \<open>dependees\<close> of the nodes that depend on it, and the role flag of an
  entry point. The source reads \<open>cache\<close> on entry points only; the record carries the
  field for every node.
\<close>

record Node =
  url :: string
  isEntryPoint :: bool
  state :: STATE
  dependents :: "ref list"
  dependees :: "ref list"
  cache :: EntryPointCache

text \<open>
  Modelled from the spec: \<^verbatim>\<open>graph/build-graph.ts\<close> is not among the source files. The
  graph owns the identity map of the registered nodes; \<^verbatim>\<open>find\<close> and \<^verbatim>\<open>filter\<close> go
  through them in insertion order, \<^verbatim>\<open>get\<close> looks an identifier up.
\<close>

record BuildGraph =
  arena :: "Node list"
  store :: "ref list"

definition graph_find :: "BuildGraph \<Rightarrow> (Node \<Rightarrow> bool) \<Rightarrow> ref option" where
  "graph_find g p = find (\<lambda>r. p (arena g ! r)) (store g)"

definition graph_filter :: "BuildGraph \<Rightarrow> (Node \<Rightarrow> bool) \<Rightarrow> ref list" where
  "graph_filter g p = filter (\<lambda>r. p (arena g ! r)) (store g)"

definition graph_get :: "BuildGraph \<Rightarrow> string \<Rightarrow> ref option" where
  "graph_get g u = find (\<lambda>r. url (arena g ! r) = u) (store g)"

text \<open>
  A JavaScript reference always addresses an allocated object: iterating a
  \<^verbatim>\<open>Set<Node>\<close> yields nodes of the arena.
\<close>

definition live :: "BuildGraph \<Rightarrow> ref list \<Rightarrow> ref list" where
  "live g rs = filter (\<lambda>r. r < length (arena g)) rs"

definition update_node :: "ref \<Rightarrow> (Node \<Rightarrow> Node) \<Rightarrow> BuildGraph \<Rightarrow> BuildGraph" where
  "update_node r f g = g\<lparr>arena := (arena g)[r := f (arena g ! r)]\<rparr>"

text \<open>
  The helpers of \<^verbatim>\<open>ng-package/nodes.ts\<close>, \<^verbatim>\<open>utils/path.ts\<close> and of Node.js
  and esbuild (\<^verbatim>\<open>path.extname\<close>, the sha256 digest in hex, \<^verbatim>\<open>formatMessages\<close>) that
  the source calls and that are not among the source files, taken as parameters. \<^verbatim>\<open>fileUrlPath\<close> answers \<^verbatim>\<open>undefined\<close>
  (\<open>None\<close>) on an identifier that is not a file URL.
\<close>

record Env =
  fileUrl :: "string \<Rightarrow> string"
  fileUrlPath :: "string \<Rightarrow> string option"
  ensureUnixPath :: "string \<Rightarrow> string"
  extname :: "string \<Rightarrow> string"
  sha256 :: "string \<Rightarrow> string"
  formatMessages :: "string list \<Rightarrow> string list"

section \<open>invalidateEntryPointsAndCacheOnFileChange\<close>

text \<open>
  The effects of one pass, in the order the source performs them: deletions from the
  sources file cache, calls of an entry point's stylesheet processor, deletions from an
  entry point's analyses cache, and assignments to an entry point's state.
\<close>

datatype Event =
    SourcesFileCacheDelete string
  | StylesheetInvalidate ref "string list"
  | AnalysesSourcesFileCacheDelete ref string
  | SetState ref STATE

text \<open>The first loop: each changed path that has a node in the graph enters the map.\<close>

definition resolveChanged ::
  "Env \<Rightarrow> BuildGraph \<Rightarrow> string \<Rightarrow> (string \<times> ref) list \<Rightarrow> (string \<times> ref) list" where
  "resolveChanged env graph filePath allNodesToClean =
     (let changedFileUrl = fileUrl env filePath in
      case graph_find graph (\<lambda>node. changedFileUrl = url node) of
        None \<Rightarrow> allNodesToClean
      | Some nodeToClean \<Rightarrow> Map_set filePath nodeToClean allNodesToClean)"

text \<open>
  The second loop runs over the map while its body extends it: the iterator of a
  \<^verbatim>\<open>Map\<close> also visits the entries added during the iteration, so the loop is a walk by
  index over the growing list of entries.
\<close>

record Cleaning =
  allNodesToClean :: "(string \<times> ref) list"
  potentialStylesResources :: "string list"
  sourcesFileCache :: FileCache
  events :: "Event list"

definition addDependeeToClean :: "Env \<Rightarrow> BuildGraph \<Rightarrow> ref \<Rightarrow> Cleaning \<Rightarrow> Cleaning" where
  "addDependeeToClean env graph dependee st =
     (case fileUrlPath env (url (arena graph ! dependee)) of
        None \<Rightarrow> st
      | Some filePath \<Rightarrow>
          if filePath = [] then st
          else
            (let st1 = st\<lparr>allNodesToClean := Map_set filePath dependee (allNodesToClean st)\<rparr>
             in if \<not> endsWith filePath ''.ts''
                then st1\<lparr>potentialStylesResources :=
                           Set_add filePath (potentialStylesResources st1)\<rparr>
                else st1))"

definition cleanNode :: "Env \<Rightarrow> BuildGraph \<Rightarrow> string \<times> ref \<Rightarrow> Cleaning \<Rightarrow> Cleaning" where
  "cleanNode env graph entry st =
     (let filePath = fst entry;
          nodeToClean = snd entry;
          st1 = st\<lparr>sourcesFileCache := FileCache_delete filePath (sourcesFileCache st),
                   events := events st @ [SourcesFileCacheDelete filePath]\<rparr>
      in if endsWith filePath ''.ts'' then st1
         else fold (addDependeeToClean env graph)
                (live graph (dependees (arena graph ! nodeToClean)))
                (st1\<lparr>potentialStylesResources :=
                        Set_add filePath (potentialStylesResources st1)\<rparr>))"

text \<open>
  What bounds the walk: every key the body adds is the path of a node of the arena, so
  the number of entries plus the number of such paths not yet keys never changes.
\<close>

definition arenaPaths :: "Env \<Rightarrow> BuildGraph \<Rightarrow> string set" where
  "arenaPaths env graph = {p. \<exists>n \<in> set (arena graph). fileUrlPath env (url n) = Some p}"

definition budget :: "Env \<Rightarrow> BuildGraph \<Rightarrow> (string \<times> ref) list \<Rightarrow> nat" where
  "budget env graph m = length m + card (arenaPaths env graph - fst ` set m)"

lemma finite_arenaPaths: "finite (arenaPaths env graph)"
proof -
  have "arenaPaths env graph \<subseteq> (\<lambda>n. the (fileUrlPath env (url n))) ` set (arena graph)"
    by (force simp: arenaPaths_def)
  then show ?thesis
    by (rule finite_subset) simp
qed

lemma Map_set_keys: "fst ` set (Map_set k v m) = insert k (fst ` set m)"
  by (induction k v m rule: Map_set.induct) auto

lemma Map_set_length:
  "length (Map_set k v m) = (if k \<in> fst ` set m then length m else Suc (length m))"
  by (induction k v m rule: Map_set.induct) auto

lemma budget_Map_set:
  assumes "k \<in> arenaPaths env graph"
  shows "budget env graph (Map_set k v m) = budget env graph m"
proof (cases "k \<in> fst ` set m")
  case True
  then have "insert k (fst ` set m) = fst ` set m"
    by auto
  with True show ?thesis
    by (simp add: budget_def Map_set_keys Map_set_length)
next
  case False
  let ?A = "arenaPaths env graph - fst ` set m"
  have fin: "finite ?A"
    by (simp add: finite_arenaPaths)
  have mem: "k \<in> ?A"
    using assms False by simp
  have eq: "arenaPaths env graph - insert k (fst ` set m) = ?A - {k}"
    by auto
  have "card (?A - {k}) = card ?A - 1"
    using fin mem by simp
  moreover have "0 < card ?A"
    using fin mem by (auto simp: card_gt_0_iff)
  ultimately show ?thesis
    using False by (simp add: budget_def Map_set_keys Map_set_length eq)
qed

lemma budget_addDependeeToClean:
  assumes "r < length (arena graph)"
  shows "budget env graph (allNodesToClean (addDependeeToClean env graph r st))
       = budget env graph (allNodesToClean st)"
proof (cases "fileUrlPath env (url (arena graph ! r))")
  case None
  then show ?thesis
    by (simp add: addDependeeToClean_def)
next
  case (Some p)
  have "p \<in> arenaPaths env graph"
    using assms Some by (auto simp: arenaPaths_def intro!: bexI [of _ "arena graph ! r"])
  then show ?thesis
    using Some by (simp add: addDependeeToClean_def Let_def budget_Map_set)
qed

lemma budget_fold_addDependeeToClean:
  assumes "\<forall>r \<in> set rs. r < length (arena graph)"
  shows "budget env graph (allNodesToClean (fold (addDependeeToClean env graph) rs st))
       = budget env graph (allNodesToClean st)"
  using assms
  by (induction rs arbitrary: st) (simp_all add: budget_addDependeeToClean)

lemma budget_cleanNode:
  "budget env graph (allNodesToClean (cleanNode env graph entry st))
 = budget env graph (allNodesToClean st)"
proof -
  have "\<forall>r \<in> set (live graph rs). r < length (arena graph)" for rs
    by (simp add: live_def)
  then show ?thesis
    by (simp add: cleanNode_def Let_def budget_fold_addDependeeToClean)
qed

lemma length_le_budget: "length m \<le> budget env graph m"
  by (simp add: budget_def)

function cleanLoop :: "Env \<Rightarrow> BuildGraph \<Rightarrow> nat \<Rightarrow> Cleaning \<Rightarrow> Cleaning" where
  "cleanLoop env graph i st =
     (if i < length (allNodesToClean st)
      then cleanLoop env graph (Suc i) (cleanNode env graph (allNodesToClean st ! i) st)
      else st)"
  by pat_completeness auto
termination
proof (relation "measure (\<lambda>(env, graph, i, st). budget env graph (allNodesToClean st) - i)")
  show "wf (measure (\<lambda>(env, graph, i, st). budget env graph (allNodesToClean st) - i))"
    by simp
next
  fix env graph i and st :: Cleaning
  assume "i < length (allNodesToClean st)"
  moreover have "length (allNodesToClean st) \<le> budget env graph (allNodesToClean st)"
    by (rule length_le_budget)
  ultimately show
    "((env, graph, Suc i, cleanNode env graph (allNodesToClean st ! i) st), (env, graph, i, st))
       \<in> measure (\<lambda>(env, graph, i, st). budget env graph (allNodesToClean st) - i)"
    by (simp add: budget_cleanNode)
qed

declare cleanLoop.simps [simp del]

text \<open>
  The third loop, over the entry points of the graph. \<^verbatim>\<open>!!x?.invalidate(r)?.length\<close> is
  true when the processor is present and answers with a non-empty array.
\<close>

definition stylesInvalidated :: "Node \<Rightarrow> string list \<Rightarrow> bool" where
  "stylesInvalidated entryPoint resources =
     (case stylesheetProcessor (cache entryPoint) of
        None \<Rightarrow> False
      | Some processor \<Rightarrow>
          (case invalidate processor resources of
             None \<Rightarrow> False
           | Some affected \<Rightarrow> affected \<noteq> []))"

definition stylesEvents :: "ref \<Rightarrow> Node \<Rightarrow> string list \<Rightarrow> Event list" where
  "stylesEvents r entryPoint resources =
     (case stylesheetProcessor (cache entryPoint) of
        None \<Rightarrow> []
      | Some processor \<Rightarrow> [StylesheetInvalidate r resources])"

record Marking =
  graph :: BuildGraph
  isDirty :: bool
  invalidatedEntryPoint :: bool
  effects :: "Event list"

definition cleanDependent :: "ref \<Rightarrow> string \<times> ref \<Rightarrow> Marking \<Rightarrow> Marking" where
  "cleanDependent entryPoint entry mk =
     (let filePath = fst entry;
          dependent = snd entry
      in if dependent \<notin> set (dependents (arena (graph mk) ! entryPoint)) then mk
         else mk\<lparr>graph := update_node entryPoint
                    (\<lambda>n. n\<lparr>cache := (cache n)\<lparr>analysesSourcesFileCache :=
                       FileCache_delete filePath (analysesSourcesFileCache (cache n))\<rparr>\<rparr>)
                    (graph mk),
                 isDirty := True,
                 effects := effects mk @ [AnalysesSourcesFileCacheDelete entryPoint filePath]\<rparr>)"

definition markEntryPoint ::
  "(string \<times> ref) list \<Rightarrow> string list \<Rightarrow> ref \<Rightarrow> Marking \<Rightarrow> Marking" where
  "markEntryPoint toClean resources entryPoint mk =
     (let mk1 =
            (if resources \<noteq> []
             then mk\<lparr>isDirty := stylesInvalidated (arena (graph mk) ! entryPoint) resources,
                     effects := effects mk
                       @ stylesEvents entryPoint (arena (graph mk) ! entryPoint) resources\<rparr>
             else mk\<lparr>isDirty := False\<rparr>);
          mk2 = fold (cleanDependent entryPoint) toClean mk1
      in if isDirty mk2
         then mk2\<lparr>graph := update_node entryPoint (\<lambda>n. n\<lparr>state := STATE_PENDING\<rparr>) (graph mk2),
                  invalidatedEntryPoint := True,
                  effects := effects mk2 @ [SetState entryPoint STATE_PENDING]\<rparr>
         else mk2)"

text \<open>
  The function returns \<open>invalidatedEntryPoint\<close>; the record also holds the objects it
  has mutated (the graph's entry points and the sources file cache) and its effects in
  order.
\<close>

record Invalidation =
  returned :: bool
  graphAfter :: BuildGraph
  sourcesAfter :: FileCache
  trace :: "Event list"

definition nodesToClean :: "Env \<Rightarrow> BuildGraph \<Rightarrow> string list \<Rightarrow> FileCache \<Rightarrow> Cleaning" where
  "nodesToClean env g files sources =
     cleanLoop env g 0
       \<lparr>allNodesToClean = fold (resolveChanged env g) files [],
        potentialStylesResources = [],
        sourcesFileCache = sources,
        events = []\<rparr>"

definition invalidateEntryPointsAndCacheOnFileChange ::
  "Env \<Rightarrow> BuildGraph \<Rightarrow> string list \<Rightarrow> FileCache \<Rightarrow> Invalidation" where
  "invalidateEntryPointsAndCacheOnFileChange env g files sources =
     (let st = nodesToClean env g files sources;
          entryPoints = graph_filter g isEntryPoint;
          mk = fold (markEntryPoint (allNodesToClean st) (potentialStylesResources st))
                 entryPoints
                 \<lparr>graph = g, isDirty = False, invalidatedEntryPoint = False,
                  effects = events st\<rparr>
      in \<lparr>returned = invalidatedEntryPoint mk,
          graphAfter = graph mk,
          sourcesAfter = sourcesFileCache st,
          trace = effects mk\<rparr>)"

text \<open>
  The deduplicated batch: its paths in the order of their first occurrence
  (\<^verbatim>\<open>[...new Set(files)]\<close>).
\<close>

definition dedupe :: "string list \<Rightarrow> string list" where
  "dedupe files = fold Set_add files []"

fun isGlobalEviction :: "Event \<Rightarrow> bool" where
  "isGlobalEviction (SourcesFileCacheDelete filePath) = True"
| "isGlobalEviction (StylesheetInvalidate r resources) = False"
| "isGlobalEviction (AnalysesSourcesFileCacheDelete r filePath) = False"
| "isGlobalEviction (SetState r s) = False"

text \<open>
  An entry point is marked dirty when \<open>isDirty\<close> is true at the end of the loop body
  for it; the body reads nothing that the loop changes, so it is run here on the graph as
  it was passed in.
\<close>

definition markedDirty :: "Env \<Rightarrow> BuildGraph \<Rightarrow> string list \<Rightarrow> FileCache \<Rightarrow> ref \<Rightarrow> bool" where
  "markedDirty env g files sources entryPoint =
     (let st = nodesToClean env g files sources
      in isDirty (markEntryPoint (allNodesToClean st) (potentialStylesResources st) entryPoint
                    \<lparr>graph = g, isDirty = False, invalidatedEntryPoint = False, effects = []\<rparr>))"

section \<open>cacheCompilerHost\<close>

text \<open>
  The underlying compiler host (\<^verbatim>\<open>ts.createIncrementalCompilerHost\<close>) is outside the
  source files: its answers are parameters, and every call of it is recorded. The
  callbacks and the further parameters the source hands through to it are left out.
\<close>

type_synonym LanguageVersion = nat

record CompilerHost =
  host_fileExists :: "string \<Rightarrow> bool"
  host_readFile :: "string \<Rightarrow> string option"
  host_getSourceFile :: "string \<Rightarrow> LanguageVersion \<Rightarrow> SourceFile option"

datatype HostCall =
    HostFileExists string
  | HostReadFile string
  | HostGetSourceFile string LanguageVersion
  | HostWriteFile string string bool

datatype LogLine = Warn string | Err string

datatype Exception = Error string | AssertionError string | TypeError string

text \<open>
  What the closures of \<^verbatim>\<open>cacheCompilerHost\<close> capture, and the objects they share and
  mutate: the graph, the sources file cache, the underlying host and the log. The sources
  file cache is one object, whether it is passed or taken from the entry point (the
  default of the parameter); an entry point's analyses cache is an object of its own.
\<close>

record Host =
  helpers :: Env
  compilerHost :: CompilerHost
  entryPoint :: ref
  processor :: "StylesheetProcessor option"

record World =
  w_graph :: BuildGraph
  w_sourcesFileCache :: FileCache
  w_hostCalls :: "HostCall list"
  w_log :: "LogLine list"

text \<open>
  Modelled from the spec: \<^verbatim>\<open>graph/node.ts\<close> and \<^verbatim>\<open>graph/build-graph.ts\<close> are not among
  the source files. A node is created with its identifier, without edges and without a
  role. \<^verbatim>\<open>put\<close> registers a new node; the spec's DuplicateNode condition is for an
  identifier that is already registered, and \<^verbatim>\<open>getNode\<close>, the caller here, puts a node
  only after \<^verbatim>\<open>get\<close> has answered \<^verbatim>\<open>undefined\<close>. \<^verbatim>\<open>dependsOn\<close> adds each edge to both
  of its indices and is idempotent on an edge that exists.
\<close>

definition new_Node :: "string \<Rightarrow> Node" where
  "new_Node u =
     \<lparr>url = u, isEntryPoint = False, state = STATE_OTHER [], dependents = [], dependees = [],
      cache = \<lparr>analysesSourcesFileCache = Map.empty, outputCache = Map.empty,
               stylesheetProcessor = None\<rparr>\<rparr>"

definition graph_put :: "Node \<Rightarrow> BuildGraph \<Rightarrow> ref \<times> BuildGraph" where
  "graph_put node g =
     (length (arena g), g\<lparr>arena := arena g @ [node], store := store g @ [length (arena g)]\<rparr>)"

definition addEdge :: "ref \<Rightarrow> ref \<Rightarrow> BuildGraph \<Rightarrow> BuildGraph" where
  "addEdge from newDep g =
     update_node from (\<lambda>n. n\<lparr>dependents := Set_add newDep (dependents n)\<rparr>)
       (update_node newDep (\<lambda>n. n\<lparr>dependees := Set_add from (dependees n)\<rparr>) g)"

definition dependsOn :: "ref \<Rightarrow> ref list \<Rightarrow> BuildGraph \<Rightarrow> BuildGraph" where
  "dependsOn from newDeps g = fold (addEdge from) newDeps g"

definition getNode :: "Host \<Rightarrow> string \<Rightarrow> World \<Rightarrow> ref \<times> World" where
  "getNode h fileName w =
     (let nodeUri = fileUrl (helpers h) (ensureUnixPath (helpers h) fileName) in
      case graph_get (w_graph w) nodeUri of
        Some node \<Rightarrow> (node, w)
      | None \<Rightarrow>
          (let (node, g) = graph_put (new_Node nodeUri) (w_graph w)
           in (node, w\<lparr>w_graph := g\<rparr>)))"

definition addDependee :: "Host \<Rightarrow> string \<Rightarrow> World \<Rightarrow> World" where
  "addDependee h fileName w =
     (let (node, w1) = getNode h fileName w
      in w1\<lparr>w_graph := dependsOn (entryPoint h) [node] (w_graph w1)\<rparr>)"

definition fileExists :: "Host \<Rightarrow> string \<Rightarrow> World \<Rightarrow> bool \<times> World" where
  "fileExists h fileName w =
     (let (entry, c) = getOrCreate fileName (w_sourcesFileCache w) in
      case exists entry of
        None \<Rightarrow>
          (let answer = host_fileExists (compilerHost h) fileName
           in (answer,
               w\<lparr>w_sourcesFileCache := c(fileName \<mapsto> entry\<lparr>exists := Some answer\<rparr>),
                 w_hostCalls := w_hostCalls w @ [HostFileExists fileName]\<rparr>))
      | Some known \<Rightarrow> (known, w\<lparr>w_sourcesFileCache := c\<rparr>))"

definition getSourceFile ::
  "Host \<Rightarrow> string \<Rightarrow> LanguageVersion \<Rightarrow> bool \<Rightarrow> World \<Rightarrow> SourceFile option \<times> World" where
  "getSourceFile h fileName languageVersion shouldCreateNewSourceFile w =
     (let w1 = addDependee h fileName w;
          (entry, c) = getOrCreate fileName (w_sourcesFileCache w1)
      in if shouldCreateNewSourceFile \<or> sourceFile entry = None
         then
           (let answer = host_getSourceFile (compilerHost h) fileName languageVersion
            in (answer,
                w1\<lparr>w_sourcesFileCache := c(fileName \<mapsto> entry\<lparr>sourceFile := answer\<rparr>),
                   w_hostCalls := w_hostCalls w1 @ [HostGetSourceFile fileName languageVersion]\<rparr>))
         else (sourceFile entry, w1\<lparr>w_sourcesFileCache := c\<rparr>))"

definition readFile :: "Host \<Rightarrow> string \<Rightarrow> World \<Rightarrow> string option \<times> World" where
  "readFile h fileName w =
     (let w1 = addDependee h fileName w;
          (entry, c) = getOrCreate fileName (w_sourcesFileCache w1)
      in if content entry = None
         then
           (let answer = host_readFile (compilerHost h) fileName
            in (answer,
                w1\<lparr>w_sourcesFileCache := c(fileName \<mapsto> entry\<lparr>content := answer\<rparr>),
                   w_hostCalls := w_hostCalls w1 @ [HostReadFile fileName]\<rparr>))
         else (content entry, w1\<lparr>w_sourcesFileCache := c\<rparr>))"

text \<open>
  \<^verbatim>\<open>writeFile\<close>. \<^verbatim>\<open>sourceFiles\<close> is optional: \<open>None\<close> is \<^verbatim>\<open>undefined\<close>. The assertion
  throws unless there is exactly one source file.
\<close>

definition writeFile ::
  "Host \<Rightarrow> string \<Rightarrow> string \<Rightarrow> bool \<Rightarrow> SourceFile list option \<Rightarrow> World
     \<Rightarrow> (Exception + unit) \<times> World" where
  "writeFile h fileName data writeByteOrderMark sourceFiles w =
     (if str_includes fileName ''.ngtypecheck.'' then (Inr (), w)
      else
        (let extension = extname (helpers h) fileName in
         if (sourceFiles = None \<or> sourceFiles = Some []) \<and> extension = ''.tsbuildinfo''
         then (Inr (),
               w\<lparr>w_hostCalls := w_hostCalls w @ [HostWriteFile fileName data writeByteOrderMark]\<rparr>)
         else if (case sourceFiles of None \<Rightarrow> True | Some fs \<Rightarrow> length fs \<noteq> 1)
         then (Inl (AssertionError (''Invalid TypeScript program emit for '' @ fileName)), w)
         else
           (let cached = outputCache (cache (arena (w_graph w) ! entryPoint h)) fileName in
            if (case cached of None \<Rightarrow> False | Some e \<Rightarrow> emitted e = data)
            then (Inr (), w)
            else (Inr (),
                  w\<lparr>w_graph := update_node (entryPoint h)
                       (\<lambda>n. n\<lparr>cache := (cache n)\<lparr>outputCache :=
                          (outputCache (cache n))
                            (fileName \<mapsto> \<lparr>emitted = data, version = sha256 (helpers h) data\<rparr>)\<rparr>\<rparr>)
                       (w_graph w)\<rparr>))))"

text \<open>
  \<^verbatim>\<open>readResource\<close>, with the awaited results in place. \<^verbatim>\<open>/(?:html?|svg)$/\<close> matches an
  extension that ends in \<^verbatim>\<open>htm\<close>, \<^verbatim>\<open>html\<close> or \<^verbatim>\<open>svg\<close>.
\<close>

definition isTemplateExtension :: "string \<Rightarrow> bool" where
  "isTemplateExtension ext = (endsWith ext ''html'' \<or> endsWith ext ''htm'' \<or> endsWith ext ''svg'')"

text \<open>
  The stylesheet branch: \<^verbatim>\<open>[...referencedFiles].map(getNode)\<close> resolves the referenced
  files from left to right, \<open>propagate\<close> is the body of the loop over
  \<^verbatim>\<open>node.dependees\<close>, and the edges are registered before warnings are logged and before
  errors make the call throw.
\<close>

fun getNodes :: "Host \<Rightarrow> string list \<Rightarrow> World \<Rightarrow> ref list \<times> World" where
  "getNodes h [] w = ([], w)"
| "getNodes h (f # fs) w =
     (let (node, w1) = getNode h f w;
          (nodes, w2) = getNodes h fs w1
      in (node # nodes, w2))"

definition propagate :: "ref list \<Rightarrow> ref \<Rightarrow> BuildGraph \<Rightarrow> BuildGraph" where
  "propagate depNodes n g =
     (if endsWith (url (arena g ! n)) ''.ts'' then dependsOn n depNodes g else g)"

definition bundleStylesheet ::
  "Host \<Rightarrow> StylesheetProcessor \<Rightarrow> string \<Rightarrow> World \<Rightarrow> (Exception + string option) \<times> World" where
  "bundleStylesheet h sp fileName w =
     (let bundle = bundleFile sp fileName;
          (node, w1) = getNode h fileName w;
          (found, w2) = getNodes h (referencedFiles bundle) w1;
          depNodes = filter (\<lambda>n. n \<noteq> node) found;
          g1 = dependsOn node depNodes (w_graph w2);
          g2 = fold (propagate depNodes) (live g1 (dependees (arena g1 ! node))) g1;
          w3 = w2\<lparr>w_graph := g2,
                  w_log := w_log w2
                    @ (if warnings bundle \<noteq> []
                       then map Warn (formatMessages (helpers h) (warnings bundle)) else [])\<rparr>
      in if errors bundle \<noteq> []
         then (Inl (Error (''An error has occuried while processing '' @ fileName @ ''.'')),
               w3\<lparr>w_log := w_log w3 @ map Err (formatMessages (helpers h) (errors bundle))\<rparr>)
         else (Inr (Some (contents bundle)), w3))"

definition readResource ::
  "Host \<Rightarrow> string \<Rightarrow> World \<Rightarrow> (Exception + string option) \<times> World" where
  "readResource h fileName w =
     (let w1 = addDependee h fileName w;
          (entry, c) = getOrCreate fileName (w_sourcesFileCache w1);
          w2 = w1\<lparr>w_sourcesFileCache := c\<rparr>
      in if content entry = None
         then
           (let w3 = w2\<lparr>w_hostCalls := w_hostCalls w2 @ [HostFileExists fileName]\<rparr> in
            if \<not> host_fileExists (compilerHost h) fileName
            then (Inl (Error (''Cannot read file '' @ fileName @ ''.'')), w3)
            else if isTemplateExtension (extname (helpers h) fileName)
            then
              (let answer = host_readFile (compilerHost h) fileName
               in (Inr answer,
                   w3\<lparr>w_sourcesFileCache :=
                        c(fileName \<mapsto> entry\<lparr>content := answer, exists := Some True\<rparr>),
                      w_hostCalls := w_hostCalls w3 @ [HostReadFile fileName]\<rparr>))
            else
              (case processor h of
                 None \<Rightarrow>
                   (Inl (TypeError ''Cannot read properties of undefined (reading bundleFile)''),
                    w3)
               | Some sp \<Rightarrow> bundleStylesheet h sp fileName w3))
         else (Inr (content entry), w2))"

text \<open>
  A sequence of calls of \<^verbatim>\<open>fileExists\<close>, \<^verbatim>\<open>readFile\<close>, \<^verbatim>\<open>getSourceFile\<close>,
  \<^verbatim>\<open>readResource\<close> and \<^verbatim>\<open>writeFile\<close>, each on one of the caching hosts that share the
  graph and the sources file cache, with the answers its underlying host gives at that
  moment. A call that throws leaves the world as it was when it threw.
\<close>

datatype HostOp =
    FileExistsOp string
  | ReadFileOp string
  | GetSourceFileOp string LanguageVersion bool
  | ReadResourceOp string
  | WriteFileOp string string bool "SourceFile list option"

fun perform :: "Host \<times> HostOp \<Rightarrow> World \<Rightarrow> World" where
  "perform (h, FileExistsOp f) w = snd (fileExists h f w)"
| "perform (h, ReadFileOp f) w = snd (readFile h f w)"
| "perform (h, GetSourceFileOp f v create) w = snd (getSourceFile h f v create w)"
| "perform (h, ReadResourceOp f) w = snd (readResource h f w)"
| "perform (h, WriteFileOp f d bom sfs) w = snd (writeFile h f d bom sfs w)"

definition performAll :: "(Host \<times> HostOp) list \<Rightarrow> World \<Rightarrow> World" where
  "performAll ops w = fold perform ops w"

text \<open>The output cache of the entry point a caching host was made for.\<close>

definition outputOf :: "Host \<Rightarrow> World \<Rightarrow> string \<rightharpoonup> OutputCacheEntry" where
  "outputOf h w = outputCache (cache (arena (w_graph w) ! entryPoint h))"

text \<open>
  What the sources file cache knows about a file: the populated field of its entry,
  \<open>None\<close> when there is no entry or the field is \<^verbatim>\<open>undefined\<close>.
\<close>

definition knownExists :: "FileCache \<Rightarrow> string \<Rightarrow> bool option" where
  "knownExists c fileName = (case c fileName of None \<Rightarrow> None | Some entry \<Rightarrow> exists entry)"

definition knownContent :: "FileCache \<Rightarrow> string \<Rightarrow> string option" where
  "knownContent c fileName = (case c fileName of None \<Rightarrow> None | Some entry \<Rightarrow> content entry)"

definition knownSourceFile :: "FileCache \<Rightarrow> string \<Rightarrow> SourceFile option" where
  "knownSourceFile c fileName =
     (case c fileName of None \<Rightarrow> None | Some entry \<Rightarrow> sourceFile entry)"

text \<open>
  The calls that write a populated field again: \<^verbatim>\<open>getSourceFile\<close> with
  \<^verbatim>\<open>shouldCreateNewSourceFile\<close> true replaces the parsed unit of its file, and
  \<^verbatim>\<open>readResource\<close> sets \<^verbatim>\<open>exists\<close> of its file to true after it has read a template.
\<close>

definition recreates :: "string \<Rightarrow> Host \<times> HostOp \<Rightarrow> bool" where
  "recreates fileName call =
     (case snd call of GetSourceFileOp f v create \<Rightarrow> f = fileName \<and> create | _ \<Rightarrow> False)"

definition readsResource :: "string \<Rightarrow> Host \<times> HostOp \<Rightarrow> bool" where
  "readsResource fileName call =
     (case snd call of ReadResourceOp f \<Rightarrow> f = fileName | _ \<Rightarrow> False)"

text \<open>The node the graph holds for a file name, as \<^verbatim>\<open>getNode\<close> looks it up.\<close>

definition nodeOf :: "Host \<Rightarrow> World \<Rightarrow> string \<Rightarrow> ref option" where
  "nodeOf h w fileName =
     graph_get (w_graph w) (fileUrl (helpers h) (ensureUnixPath (helpers h) fileName))"


section \<open>Notions used in the proofs\<close>

text \<open>Every entry of the map is a path with the node the graph finds for it.\<close>

definition resolved :: "Env \<Rightarrow> BuildGraph \<Rightarrow> (string \<times> ref) list \<Rightarrow> bool" where
  "resolved env g m =
     (\<forall>(k, v) \<in> set m. graph_find g (\<lambda>node. fileUrl env k = url node) = Some v)"

text \<open>Every entry of the map is keyed by the path of its node's identifier.\<close>

definition keyedByPath :: "Env \<Rightarrow> BuildGraph \<Rightarrow> (string \<times> ref) list \<Rightarrow> bool" where
  "keyedByPath env g m = (\<forall>(k, n) \<in> set m. fileUrlPath env (url (arena g ! n)) = Some k)"

text \<open>
  The third loop leaves the registered nodes, the edges and the stylesheet processors as
  they are.
\<close>

definition sameEdges :: "BuildGraph \<Rightarrow> BuildGraph \<Rightarrow> bool" where
  "sameEdges g g' =
     (store g' = store g \<and> length (arena g') = length (arena g)
      \<and> (\<forall>r. dependents (arena g' ! r) = dependents (arena g ! r)
            \<and> stylesheetProcessor (cache (arena g' ! r)) = stylesheetProcessor (cache (arena g ! r))))"

text \<open>What decides \<open>isDirty\<close> for an entry point.\<close>

definition dirtyBy :: "BuildGraph \<Rightarrow> (string \<times> ref) list \<Rightarrow> string list \<Rightarrow> ref \<Rightarrow> bool" where
  "dirtyBy g toClean resources ep =
     ((resources \<noteq> [] \<and> stylesInvalidated (arena g ! ep) resources)
      \<or> (\<exists>entry \<in> set toClean. snd entry \<in> set (dependents (arena g ! ep))))"

text \<open>
  What a heap of JavaScript objects and the spec's data model give: the references of a
  graph address nodes of its arena, and no two nodes of the arena share the path of their
  identifier (the spec: no two nodes share an identifier).
\<close>

definition wellFormed :: "BuildGraph \<Rightarrow> bool" where
  "wellFormed g =
     (list_all (\<lambda>r. r < length (arena g)) (store g)
      \<and> list_all (\<lambda>n. list_all (\<lambda>r. r < length (arena g)) (dependees n)
                     \<and> list_all (\<lambda>r. r < length (arena g)) (dependents n)) (arena g))"

definition uniquePaths :: "Env \<Rightarrow> BuildGraph \<Rightarrow> bool" where
  "uniquePaths env g =
     (\<forall>a < length (arena g). \<forall>b < length (arena g).
        fileUrlPath env (url (arena g ! a)) \<noteq> None
        \<and> fileUrlPath env (url (arena g ! a)) = fileUrlPath env (url (arena g ! b))
        \<longrightarrow> a = b)"

definition liveEntries :: "BuildGraph \<Rightarrow> (string \<times> ref) list \<Rightarrow> bool" where
  "liveEntries g m = (\<forall>(k, n) \<in> set m. n < length (arena g))"

text \<open>
  From index \<open>i\<close> on, every entry of the map with a path that does not end in \<^verbatim>\<open>.ts\<close>
  has the paths of its node's dependees among the keys.
\<close>

definition fannedOutFrom :: "Env \<Rightarrow> BuildGraph \<Rightarrow> nat \<Rightarrow> (string \<times> ref) list \<Rightarrow> bool" where
  "fannedOutFrom env g i m =
     (\<forall>j. i \<le> j \<and> j < length m \<and> \<not> endsWith (fst (m ! j)) ''.ts''
        \<longrightarrow> (\<forall>d \<in> set (live g (dependees (arena g ! snd (m ! j)))). \<forall>q.
              fileUrlPath env (url (arena g ! d)) = Some q \<and> q \<noteq> [] \<longrightarrow> q \<in> fst ` set m))"

text \<open>
  Registering nodes and edges keeps what is there: the registered nodes stay first in the
  store, identifiers stay, and the sets of edges only grow.
\<close>

definition storeValid :: "BuildGraph \<Rightarrow> bool" where
  "storeValid g = list_all (\<lambda>r. r < length (arena g)) (store g)"

definition grows :: "BuildGraph \<Rightarrow> BuildGraph \<Rightarrow> bool" where
  "grows g g' =
     (prefix (store g) (store g') \<and> length (arena g) \<le> length (arena g')
      \<and> (\<forall>r < length (arena g).
            url (arena g' ! r) = url (arena g ! r)
            \<and> set (dependents (arena g ! r)) \<subseteq> set (dependents (arena g' ! r))
            \<and> set (dependees (arena g ! r)) \<subseteq> set (dependees (arena g' ! r))))"

definition sameNodes :: "BuildGraph \<Rightarrow> BuildGraph \<Rightarrow> bool" where
  "sameNodes g g' =
     (store g' = store g \<and> length (arena g') = length (arena g)
      \<and> (\<forall>r. url (arena g' ! r) = url (arena g ! r)))"

section \<open>Sample inputs\<close>

text \<open>
  Concrete inputs on which the theorems below are applied. The helpers are stand-ins:
  file URLs carry the scheme \<^verbatim>\<open>file://\<close>, and the digest is a tag in front of the data.
\<close>

text \<open>The extension of a path: what stands from its last dot on.\<close>

definition sampleExtname :: "string \<Rightarrow> string" where
  "sampleExtname p =
     (let ext = takeWhile (\<lambda>c. c \<noteq> CHR ''.'') (rev p)
      in if length ext = length p then [] else rev (ext @ ''.''))"

definition sampleEnv :: Env where
  "sampleEnv =
     \<lparr>fileUrl = (\<lambda>p. ''file://'' @ p),
      fileUrlPath = (\<lambda>u. if take 7 u = ''file://'' then Some (drop 7 u) else None),
      ensureUnixPath = (\<lambda>p. p),
      extname = sampleExtname,
      sha256 = (\<lambda>d. ''sha256:'' @ d),
      formatMessages = (\<lambda>ms. ms)\<rparr>"

text \<open>
  A package with one entry point that depends on \<^verbatim>\<open>a.ts\<close>, which depends on the
  stylesheet \<^verbatim>\<open>a.css\<close>, which imports the partial \<^verbatim>\<open>p.css\<close>; identifiers are file
  URLs.
\<close>

text \<open>
  A stylesheet processor that reports every resource it is asked about as affected, and
  bundles a stylesheet from itself and the partial.
\<close>

definition sampleProcessor :: StylesheetProcessor where
  "sampleProcessor =
     \<lparr>invalidate = (\<lambda>fs. Some fs),
      bundleFile = (\<lambda>f. \<lparr>referencedFiles = [f, ''/p.css''], contents = ''css'', errors = [],
                          warnings = []\<rparr>)\<rparr>"

definition sampleCache :: EntryPointCache where
  "sampleCache =
     \<lparr>analysesSourcesFileCache = Map.empty, outputCache = Map.empty,
      stylesheetProcessor = Some sampleProcessor\<rparr>"

definition sampleNode :: "string \<Rightarrow> bool \<Rightarrow> ref list \<Rightarrow> ref list \<Rightarrow> Node" where
  "sampleNode u e ds us =
     \<lparr>url = u, isEntryPoint = e, state = STATE_OTHER ''done'', dependents = ds, dependees = us,
      cache = sampleCache\<rparr>"

definition sampleGraph :: BuildGraph where
  "sampleGraph =
     \<lparr>arena =
        [sampleNode ''ng://lib'' True [1] [],
         sampleNode ''file:///a.ts'' False [2] [0],
         sampleNode ''file:///a.css'' False [3] [1],
         sampleNode ''file:///p.css'' False [] [2]],
      store = [0, 1, 2, 3]\<rparr>"

definition sampleCompilerHost :: CompilerHost where
  "sampleCompilerHost =
     \<lparr>host_fileExists = (\<lambda>f. True),
      host_readFile = (\<lambda>f. Some ''text''),
      host_getSourceFile = (\<lambda>f v. Some (SourceFile f ''text''))\<rparr>"

definition sampleHost :: Host where
  "sampleHost =
     \<lparr>helpers = sampleEnv, compilerHost = sampleCompilerHost, entryPoint = 0,
      processor = Some sampleProcessor\<rparr>"

definition sampleWorld :: World where
  "sampleWorld =
     \<lparr>w_graph = sampleGraph, w_sourcesFileCache = Map.empty, w_hostCalls = [], w_log = []\<rparr>"

definition emittedOnce :: World where
  "emittedOnce =
     snd (writeFile sampleHost ''/out.js'' ''old'' False
            (Some [SourceFile ''/a.ts'' ''text'']) sampleWorld)"

text \<open>
  A world in which the entry for \<^verbatim>\<open>/a.ts\<close> is populated, an underlying host that by now
  answers differently, and further calls on it.
\<close>

definition cachedWorld :: World where
  "cachedWorld =
     performAll
       [(sampleHost, FileExistsOp ''/a.ts''), (sampleHost, ReadFileOp ''/a.ts''),
        (sampleHost, GetSourceFileOp ''/a.ts'' 0 False)]
       sampleWorld"

definition changedHost :: Host where
  "changedHost =
     sampleHost\<lparr>compilerHost :=
       \<lparr>host_fileExists = (\<lambda>f. False), host_readFile = (\<lambda>f. None),
        host_getSourceFile = (\<lambda>f v. None)\<rparr>\<rparr>"

definition laterCalls :: "(Host \<times> HostOp) list" where
  "laterCalls =
     [(changedHost, ReadFileOp ''/b.ts''), (changedHost, FileExistsOp ''/a.ts''),
      (changedHost, GetSourceFileOp ''/b.ts'' 0 True), (sampleHost, ReadResourceOp ''/a.ts''),
      (sampleHost, ReadResourceOp ''/t.html''),
      (sampleHost, WriteFileOp ''/out.js'' ''new'' False (Some [SourceFile ''/a.ts'' ''text'']))]"

text \<open>
  A world in which the parsed unit of \<^verbatim>\<open>/a.ts\<close> was created anew by a host that has none,
  a world in which \<^verbatim>\<open>/t.html\<close> is known not to exist, and calls on it that do not read
  that file as a resource.
\<close>

definition earlierCalls :: "(Host \<times> HostOp) list" where
  "earlierCalls =
     [(sampleHost, ReadFileOp ''/t.html''), (sampleHost, ReadResourceOp ''/a.css''),
      (sampleHost, GetSourceFileOp ''/t.html'' 0 True)]"

definition recreatedWorld :: World where
  "recreatedWorld = perform (changedHost, GetSourceFileOp ''/a.ts'' 0 True) cachedWorld"

definition missingWorld :: World where
  "missingWorld = perform (changedHost, FileExistsOp ''/t.html'') sampleWorld"

text \<open>Two stylesheets that import each other, under the same entry point.\<close>

definition cycleGraph :: BuildGraph where
  "cycleGraph =
     \<lparr>arena =
        [sampleNode ''ng://lib'' True [1] [],
         sampleNode ''file:///a.css'' False [2] [0, 2],
         sampleNode ''file:///b.css'' False [1] [1]],
      store = [0, 1, 2]\<rparr>"

text \<open>The world after the stylesheet \<^verbatim>\<open>/a.css\<close> was read as a resource.\<close>

definition bundledWorld :: World where
  "bundledWorld = snd (readResource sampleHost ''/a.css'' sampleWorld)"


section \<open>Updating a node\<close>

lemma nth_update_node:
  "arena (update_node e f g) ! r
     = (if r = e \<and> e < length (arena g) then f (arena g ! e) else arena g ! r)"
  by (cases "e < length (arena g)") (auto simp: update_node_def list_update_beyond)

lemma length_update_node [simp]: "length (arena (update_node e f g)) = length (arena g)"
  by (simp add: update_node_def)

lemma store_update_node [simp]: "store (update_node e f g) = store g"
  by (simp add: update_node_def)

lemma update_node_beyond: "\<not> e < length (arena g) \<Longrightarrow> update_node e f g = g"
  by (simp add: update_node_def list_update_beyond)

section \<open>Insertion-ordered maps\<close>

lemma set_Map_set_subset: "set (Map_set k v m) \<subseteq> insert (k, v) (set m)"
  by (induction k v m rule: Map_set.induct) auto

lemma Map_set_same:
  assumes "k \<in> fst ` set m" and "\<forall>v'. (k, v') \<in> set m \<longrightarrow> v' = v"
  shows "Map_set k v m = m"
  using assms by (induction k v m rule: Map_set.induct) auto

lemma Map_set_fresh:
  assumes "k \<notin> fst ` set m"
  shows "Map_set k v m = m @ [(k, v)]"
  using assms by (induction k v m rule: Map_set.induct) auto

lemma distinct_Map_set:
  "distinct (map fst m) \<Longrightarrow> distinct (map fst (Map_set k v m))"
  by (induction k v m rule: Map_set.induct) (auto simp: Map_set_keys)

lemma prefix_keys_Map_set: "prefix (map fst m) (map fst (Map_set k v m))"
  by (induction k v m rule: Map_set.induct) auto

lemma Map_set_member: "(k, v) \<in> set (Map_set k v m)"
  by (induction k v m rule: Map_set.induct) auto


section \<open>Unknown paths\<close>

lemma fold_resolveChanged_unknown:
  assumes "\<forall>f \<in> set files. graph_find g (\<lambda>node. fileUrl env f = url node) = None"
  shows "fold (resolveChanged env g) files m = m"
  using assms by (induction files arbitrary: m) (simp_all add: resolveChanged_def)

lemma fold_markEntryPoint_nothing:
  assumes "isDirty mk = False"
  shows "fold (markEntryPoint [] []) eps mk = mk"
  using assms by (induction eps arbitrary: mk) (simp_all add: markEntryPoint_def)

text \<open>
  C1. When no path of the batch has a node in the graph, the function returns false and
  changes nothing: the sources file cache is the one passed in, the graph (with every
  entry point's analyses cache and state) is the one passed in, and no effect happened.
\<close>

theorem unknown_paths_noop:
  assumes "\<forall>f \<in> set files. graph_find g (\<lambda>node. fileUrl env f = url node) = None"
  shows "invalidateEntryPointsAndCacheOnFileChange env g files sources
       = \<lparr>returned = False, graphAfter = g, sourcesAfter = sources, trace = []\<rparr>"
  using assms
  by (simp add: invalidateEntryPointsAndCacheOnFileChange_def nodesToClean_def
        fold_resolveChanged_unknown cleanLoop.simps fold_markEntryPoint_nothing)

theorem unknown_paths_noop_witness:
  "graph_find sampleGraph (\<lambda>node. fileUrl sampleEnv ''/unrelated.ts'' = url node) = None
   \<and> invalidateEntryPointsAndCacheOnFileChange sampleEnv sampleGraph [''/unrelated.ts''] Map.empty
       = \<lparr>returned = False, graphAfter = sampleGraph, sourcesAfter = Map.empty, trace = []\<rparr>"
proof -
  have h: "graph_find sampleGraph (\<lambda>node. fileUrl sampleEnv ''/unrelated.ts'' = url node) = None"
    by (simp add: graph_find_def sampleGraph_def sampleEnv_def sampleNode_def)
  then have "\<forall>f \<in> set [''/unrelated.ts''].
      graph_find sampleGraph (\<lambda>node. fileUrl sampleEnv f = url node) = None"
    by simp
  from unknown_paths_noop [OF this] h show ?thesis
    by simp
qed


section \<open>writeFile\<close>

text \<open>
  C10. For a file name that contains \<^verbatim>\<open>.ngtypecheck.\<close>, \<^verbatim>\<open>writeFile\<close> returns at once:
  whatever the data, the source files and the world, nothing is written through to the
  underlying host and the output cache (with the rest of the world) is as before.
\<close>

theorem writeFile_ngtypecheck:
  assumes "str_includes fileName ''.ngtypecheck.''"
  shows "writeFile h fileName data writeByteOrderMark sourceFiles w = (Inr (), w)"
  using assms by (simp add: writeFile_def)

theorem writeFile_ngtypecheck_witness:
  "str_includes ''/a.ngtypecheck.ts'' ''.ngtypecheck.''
   \<and> writeFile sampleHost ''/a.ngtypecheck.ts'' ''new'' False
         (Some [SourceFile ''/a.ts'' ''text'']) emittedOnce
       = (Inr (), emittedOnce)"
proof -
  have h: "str_includes ''/a.ngtypecheck.ts'' ''.ngtypecheck.''"
    by (simp add: str_includes_def sublist_Cons_right)
  from writeFile_ngtypecheck [OF h] h show ?thesis
    by simp
qed


text \<open>
  C5, as stated, fails. No write is reported: after \<^verbatim>\<open>/out.js\<close> was emitted with content
  \<^verbatim>\<open>old\<close>, the identical second call and the differing third call both return nothing,
  though the third has replaced the entry. And a differing write does not always
  replace the entry: for a name with \<^verbatim>\<open>.ngtypecheck.\<close> nothing is stored, a
  \<^verbatim>\<open>.tsbuildinfo\<close> call without source files goes to the underlying host and nothing is
  stored, and a call with two source files throws at the assertion and the entry still
  holds \<^verbatim>\<open>old\<close>.
\<close>

theorem writeFile_suppression_counterexample:
  "fst (writeFile sampleHost ''/out.js'' ''old'' False
          (Some [SourceFile ''/a.ts'' ''text'']) emittedOnce) = Inr ()
   \<and> fst (writeFile sampleHost ''/out.js'' ''new'' False
            (Some [SourceFile ''/a.ts'' ''text''])
            (snd (writeFile sampleHost ''/out.js'' ''old'' False
                    (Some [SourceFile ''/a.ts'' ''text'']) emittedOnce))) = Inr ()
   \<and> map_option emitted
         (outputOf sampleHost
            (snd (writeFile sampleHost ''/out.js'' ''new'' False
                    (Some [SourceFile ''/a.ts'' ''text''])
                    (snd (writeFile sampleHost ''/out.js'' ''old'' False
                            (Some [SourceFile ''/a.ts'' ''text'']) emittedOnce))))
            ''/out.js'')
       = Some ''new''
   \<and> outputOf sampleHost sampleWorld ''/a.ngtypecheck.ts'' = None
   \<and> outputOf sampleHost
         (snd (writeFile sampleHost ''/a.ngtypecheck.ts'' ''new'' False
                 (Some [SourceFile ''/a.ts'' ''text'']) sampleWorld))
         ''/a.ngtypecheck.ts'' = None
   \<and> outputOf sampleHost
         (snd (writeFile sampleHost ''/lib.tsbuildinfo'' ''new'' False None sampleWorld))
         ''/lib.tsbuildinfo'' = None
   \<and> w_hostCalls (snd (writeFile sampleHost ''/lib.tsbuildinfo'' ''new'' False None sampleWorld))
       = [HostWriteFile ''/lib.tsbuildinfo'' ''new'' False]
   \<and> map_option emitted (outputOf sampleHost emittedOnce ''/out.js'') = Some ''old''
   \<and> fst (writeFile sampleHost ''/out.js'' ''new'' False
            (Some [SourceFile ''/a.ts'' ''text'', SourceFile ''/b.ts'' ''text'']) emittedOnce)
       = Inl (AssertionError ''Invalid TypeScript program emit for /out.js'')
   \<and> map_option emitted
         (outputOf sampleHost
            (snd (writeFile sampleHost ''/out.js'' ''new'' False
                    (Some [SourceFile ''/a.ts'' ''text'', SourceFile ''/b.ts'' ''text''])
                    emittedOnce))
            ''/out.js'')
       = Some ''old''"
  by code_simp

text \<open>
  C5, amended. \<^verbatim>\<open>writeFile\<close> returns nothing on every path that does not throw, so no
  written flag is reported. For a file name without \<^verbatim>\<open>.ngtypecheck.\<close> and a call with
  exactly one source file: when the data equals the content stored for the file name in
  the entry point's output cache, the world stays as it is; otherwise the entry for the
  file name becomes the data with the sha256 of the data as its version and nothing else
  in the world changes; and repeating the call changes nothing more. For a file name
  with \<^verbatim>\<open>.ngtypecheck.\<close> the world stays as it is; a call without source files for the
  extension \<^verbatim>\<open>.tsbuildinfo\<close> is handed to the underlying host and changes nothing else;
  and any other call without exactly one source file throws the assertion and changes
  nothing.
\<close>

theorem writeFile_suppression:
  "(str_includes fileName ''.ngtypecheck.''
      \<longrightarrow> writeFile h fileName data writeByteOrderMark sourceFiles w = (Inr (), w))
   \<and> (\<not> str_includes fileName ''.ngtypecheck.''
       \<and> (sourceFiles = None \<or> sourceFiles = Some [])
       \<and> extname (helpers h) fileName = ''.tsbuildinfo''
      \<longrightarrow> writeFile h fileName data writeByteOrderMark sourceFiles w
          = (Inr (),
             w\<lparr>w_hostCalls := w_hostCalls w @ [HostWriteFile fileName data writeByteOrderMark]\<rparr>))
   \<and> (\<not> str_includes fileName ''.ngtypecheck.''
       \<and> (case sourceFiles of None \<Rightarrow> True | Some fs \<Rightarrow> length fs \<noteq> 1)
       \<and> \<not> ((sourceFiles = None \<or> sourceFiles = Some [])
             \<and> extname (helpers h) fileName = ''.tsbuildinfo'')
      \<longrightarrow> writeFile h fileName data writeByteOrderMark sourceFiles w
          = (Inl (AssertionError (''Invalid TypeScript program emit for '' @ fileName)), w))
   \<and> (\<not> str_includes fileName ''.ngtypecheck.'' \<and> sourceFiles = Some [sf]
      \<longrightarrow> fst (writeFile h fileName data writeByteOrderMark sourceFiles w) = Inr ()
        \<and> (map_option emitted (outputOf h w fileName) = Some data
            \<longrightarrow> snd (writeFile h fileName data writeByteOrderMark sourceFiles w) = w)
        \<and> (map_option emitted (outputOf h w fileName) \<noteq> Some data
            \<longrightarrow> snd (writeFile h fileName data writeByteOrderMark sourceFiles w)
                = w\<lparr>w_graph := update_node (entryPoint h)
                     (\<lambda>n. n\<lparr>cache := (cache n)\<lparr>outputCache :=
                        (outputCache (cache n))
                          (fileName \<mapsto> \<lparr>emitted = data, version = sha256 (helpers h) data\<rparr>)\<rparr>\<rparr>)
                     (w_graph w)\<rparr>
              \<and> (entryPoint h < length (arena (w_graph w))
                  \<longrightarrow> outputOf h (snd (writeFile h fileName data writeByteOrderMark sourceFiles w))
                      = (outputOf h w)
                          (fileName \<mapsto> \<lparr>emitted = data, version = sha256 (helpers h) data\<rparr>)))
        \<and> snd (writeFile h fileName data writeByteOrderMark sourceFiles
                 (snd (writeFile h fileName data writeByteOrderMark sourceFiles w)))
            = snd (writeFile h fileName data writeByteOrderMark sourceFiles w))"
proof (intro conjI impI)
  assume "str_includes fileName ''.ngtypecheck.''"
  then show "writeFile h fileName data writeByteOrderMark sourceFiles w = (Inr (), w)"
    by (simp add: writeFile_def)
next
  assume "\<not> str_includes fileName ''.ngtypecheck.''
       \<and> (sourceFiles = None \<or> sourceFiles = Some [])
       \<and> extname (helpers h) fileName = ''.tsbuildinfo''"
  then show "writeFile h fileName data writeByteOrderMark sourceFiles w
          = (Inr (),
             w\<lparr>w_hostCalls := w_hostCalls w @ [HostWriteFile fileName data writeByteOrderMark]\<rparr>)"
    by (auto simp: writeFile_def Let_def)
next
  assume "\<not> str_includes fileName ''.ngtypecheck.''
       \<and> (case sourceFiles of None \<Rightarrow> True | Some fs \<Rightarrow> length fs \<noteq> 1)
       \<and> \<not> ((sourceFiles = None \<or> sourceFiles = Some [])
             \<and> extname (helpers h) fileName = ''.tsbuildinfo'')"
  then show "writeFile h fileName data writeByteOrderMark sourceFiles w
          = (Inl (AssertionError (''Invalid TypeScript program emit for '' @ fileName)), w)"
    by (auto simp: writeFile_def Let_def split: option.splits)
next
  assume a: "\<not> str_includes fileName ''.ngtypecheck.'' \<and> sourceFiles = Some [sf]"
  then show "fst (writeFile h fileName data writeByteOrderMark sourceFiles w) = Inr ()"
    by (auto simp: writeFile_def Let_def split: option.splits)
  from a show "snd (writeFile h fileName data writeByteOrderMark sourceFiles w) = w"
    if "map_option emitted (outputOf h w fileName) = Some data"
    using that by (auto simp: writeFile_def outputOf_def Let_def split: option.splits)
  from a show "snd (writeFile h fileName data writeByteOrderMark sourceFiles w)
      = w\<lparr>w_graph := update_node (entryPoint h)
           (\<lambda>n. n\<lparr>cache := (cache n)\<lparr>outputCache :=
              (outputCache (cache n))
                (fileName \<mapsto> \<lparr>emitted = data, version = sha256 (helpers h) data\<rparr>)\<rparr>\<rparr>)
           (w_graph w)\<rparr>"
    if "map_option emitted (outputOf h w fileName) \<noteq> Some data"
    using that by (auto simp: writeFile_def outputOf_def Let_def split: option.splits)
  from a show "outputOf h (snd (writeFile h fileName data writeByteOrderMark sourceFiles w))
      = (outputOf h w)(fileName \<mapsto> \<lparr>emitted = data, version = sha256 (helpers h) data\<rparr>)"
    if "map_option emitted (outputOf h w fileName) \<noteq> Some data"
      and "entryPoint h < length (arena (w_graph w))"
    using that
    by (auto simp: writeFile_def outputOf_def Let_def nth_update_node split: option.splits)
  from a show "snd (writeFile h fileName data writeByteOrderMark sourceFiles
                 (snd (writeFile h fileName data writeByteOrderMark sourceFiles w)))
            = snd (writeFile h fileName data writeByteOrderMark sourceFiles w)"
    by (cases "entryPoint h < length (arena (w_graph w))")
       (auto simp: writeFile_def outputOf_def Let_def nth_update_node update_node_beyond
          split: option.splits)
qed


theorem writeFile_suppression_witness:
  "writeFile sampleHost ''/a.ngtypecheck.ts'' ''new'' False
       (Some [SourceFile ''/a.ts'' ''text'']) sampleWorld = (Inr (), sampleWorld)
   \<and> writeFile sampleHost ''/lib.tsbuildinfo'' ''new'' False None sampleWorld
       = (Inr (), sampleWorld\<lparr>w_hostCalls := w_hostCalls sampleWorld
                    @ [HostWriteFile ''/lib.tsbuildinfo'' ''new'' False]\<rparr>)
   \<and> writeFile sampleHost ''/out.js'' ''new'' False
         (Some [SourceFile ''/a.ts'' ''text'', SourceFile ''/b.ts'' ''text'']) emittedOnce
       = (Inl (AssertionError (''Invalid TypeScript program emit for '' @ ''/out.js'')),
          emittedOnce)
   \<and> writeFile sampleHost ''/out.js'' ''old'' False
         (Some [SourceFile ''/a.ts'' ''text'']) emittedOnce = (Inr (), emittedOnce)
   \<and> fst (writeFile sampleHost ''/out.js'' ''new'' False
            (Some [SourceFile ''/a.ts'' ''text'']) emittedOnce) = Inr ()
   \<and> outputOf sampleHost
         (snd (writeFile sampleHost ''/out.js'' ''new'' False
                 (Some [SourceFile ''/a.ts'' ''text'']) emittedOnce))
       = (outputOf sampleHost emittedOnce)
           (''/out.js'' \<mapsto> \<lparr>emitted = ''new'', version = sha256 (helpers sampleHost) ''new''\<rparr>)"
proof -
  have n1: "str_includes ''/a.ngtypecheck.ts'' ''.ngtypecheck.''"
    by code_simp
  have n2: "\<not> str_includes ''/lib.tsbuildinfo'' ''.ngtypecheck.''"
    by code_simp
  have n3: "\<not> str_includes ''/out.js'' ''.ngtypecheck.''"
    by code_simp
  have e2: "extname (helpers sampleHost) ''/lib.tsbuildinfo'' = ''.tsbuildinfo''"
    by code_simp
  have e3: "extname (helpers sampleHost) ''/out.js'' \<noteq> ''.tsbuildinfo''"
    by code_simp
  have s4: "map_option emitted (outputOf sampleHost emittedOnce ''/out.js'') = Some ''old''"
    by code_simp
  have s5: "map_option emitted (outputOf sampleHost emittedOnce ''/out.js'') \<noteq> Some ''new''"
    by code_simp
  have l5: "entryPoint sampleHost < length (arena (w_graph emittedOnce))"
    by code_simp
  have c1: "writeFile sampleHost ''/a.ngtypecheck.ts'' ''new'' False
      (Some [SourceFile ''/a.ts'' ''text'']) sampleWorld = (Inr (), sampleWorld)"
    using writeFile_suppression
      [where fileName = "''/a.ngtypecheck.ts''" and h = sampleHost and w = sampleWorld
         and data = "''new''" and writeByteOrderMark = False
         and sourceFiles = "Some [SourceFile ''/a.ts'' ''text'']"] n1
    by blast
  have c2: "writeFile sampleHost ''/lib.tsbuildinfo'' ''new'' False None sampleWorld
      = (Inr (), sampleWorld\<lparr>w_hostCalls := w_hostCalls sampleWorld
                   @ [HostWriteFile ''/lib.tsbuildinfo'' ''new'' False]\<rparr>)"
    using writeFile_suppression
      [where fileName = "''/lib.tsbuildinfo''" and h = sampleHost and w = sampleWorld
         and data = "''new''" and writeByteOrderMark = False and sourceFiles = None] n2 e2
    by blast
  have c3: "writeFile sampleHost ''/out.js'' ''new'' False
      (Some [SourceFile ''/a.ts'' ''text'', SourceFile ''/b.ts'' ''text'']) emittedOnce
      = (Inl (AssertionError (''Invalid TypeScript program emit for '' @ ''/out.js'')),
         emittedOnce)"
    using writeFile_suppression
      [where fileName = "''/out.js''" and h = sampleHost and w = emittedOnce
         and data = "''new''" and writeByteOrderMark = False
         and sourceFiles = "Some [SourceFile ''/a.ts'' ''text'', SourceFile ''/b.ts'' ''text'']"]
      n3 e3
    by simp
  note one = writeFile_suppression
      [where fileName = "''/out.js''" and h = sampleHost and w = emittedOnce
         and writeByteOrderMark = False and sf = "SourceFile ''/a.ts'' ''text''"
         and sourceFiles = "Some [SourceFile ''/a.ts'' ''text'']"]
  have c4: "writeFile sampleHost ''/out.js'' ''old'' False
      (Some [SourceFile ''/a.ts'' ''text'']) emittedOnce = (Inr (), emittedOnce)"
    using one [where data = "''old''"] n3 s4
    by (simp add: prod_eq_iff)
  have c5: "fst (writeFile sampleHost ''/out.js'' ''new'' False
        (Some [SourceFile ''/a.ts'' ''text'']) emittedOnce) = Inr ()"
    "outputOf sampleHost
       (snd (writeFile sampleHost ''/out.js'' ''new'' False
               (Some [SourceFile ''/a.ts'' ''text'']) emittedOnce))
     = (outputOf sampleHost emittedOnce)
         (''/out.js'' \<mapsto> \<lparr>emitted = ''new'', version = sha256 (helpers sampleHost) ''new''\<rparr>)"
    using one [where data = "''new''"] n3 s5 l5
    by blast+
  from c1 c2 c3 c4 c5 show ?thesis
    by (intro conjI)
qed


section \<open>The sources file cache is trusted\<close>

lemma getNode_keeps [simp]:
  "w_sourcesFileCache (snd (getNode h f w)) = w_sourcesFileCache w"
  "w_hostCalls (snd (getNode h f w)) = w_hostCalls w"
  "w_log (snd (getNode h f w)) = w_log w"
  by (simp_all add: getNode_def Let_def split: option.splits prod.splits)

lemma addDependee_keeps [simp]:
  "w_sourcesFileCache (addDependee h f w) = w_sourcesFileCache w"
  "w_hostCalls (addDependee h f w) = w_hostCalls w"
  "w_log (addDependee h f w) = w_log w"
  by (simp_all add: addDependee_def split: prod.splits)
   (metis getNode_keeps snd_conv)+

lemma getOrCreate_present:
  "c f = Some e \<Longrightarrow> getOrCreate f c = (e, c)"
  by (simp add: getOrCreate_def)

lemma fileExists_known:
  assumes "knownExists (w_sourcesFileCache w) f = Some b"
  shows "fileExists h f w = (b, w)"
  using assms
  by (auto simp: fileExists_def knownExists_def getOrCreate_present split: option.splits)

lemma readFile_known:
  assumes "knownContent (w_sourcesFileCache w) f = Some c"
  shows "fst (readFile h f w) = Some c
    \<and> w_hostCalls (snd (readFile h f w)) = w_hostCalls w
    \<and> w_sourcesFileCache (snd (readFile h f w)) = w_sourcesFileCache w"
  using assms
  by (auto simp: readFile_def knownContent_def getOrCreate_present Let_def split: option.splits)

lemma getSourceFile_known:
  assumes "knownSourceFile (w_sourcesFileCache w) f = Some sf"
  shows "fst (getSourceFile h f v False w) = Some sf
    \<and> w_hostCalls (snd (getSourceFile h f v False w)) = w_hostCalls w
    \<and> w_sourcesFileCache (snd (getSourceFile h f v False w)) = w_sourcesFileCache w"
  using assms
  by (auto simp: getSourceFile_def knownSourceFile_def getOrCreate_present Let_def
      split: option.splits)

lemma getNodes_keeps [simp]:
  "w_sourcesFileCache (snd (getNodes h fs w)) = w_sourcesFileCache w"
proof (induction fs arbitrary: w)
  case Nil
  then show ?case by simp
next
  case (Cons f fs)
  obtain r w1 where first: "getNode h f w = (r, w1)"
    by (cases "getNode h f w")
  have "w_sourcesFileCache w1 = w_sourcesFileCache w"
    using getNode_keeps(1) [of h f w] first by simp
  with Cons [of w1] show ?case
    by (auto simp: first split: prod.splits)
qed

lemma bundleStylesheet_keeps [simp]:
  "w_sourcesFileCache (snd (bundleStylesheet h sp f w)) = w_sourcesFileCache w"
proof -
  obtain node w1 where first: "getNode h f w = (node, w1)"
    by (cases "getNode h f w")
  obtain found w2 where rest: "getNodes h (referencedFiles (bundleFile sp f)) w1 = (found, w2)"
    by (cases "getNodes h (referencedFiles (bundleFile sp f)) w1")
  have "w_sourcesFileCache w1 = w_sourcesFileCache w"
    using getNode_keeps(1) [of h f w] first by simp
  moreover have "w_sourcesFileCache w2 = w_sourcesFileCache w1"
    using getNodes_keeps [of h "referencedFiles (bundleFile sp f)" w1] rest by simp
  ultimately show ?thesis
    by (simp add: bundleStylesheet_def first rest Let_def)
qed

lemma writeFile_keeps [simp]:
  "w_sourcesFileCache (snd (writeFile h f d bom sfs w)) = w_sourcesFileCache w"
  by (simp add: writeFile_def Let_def)

lemma readResource_sources:
  "w_sourcesFileCache (snd (readResource h g w))
     = (let entry = fst (getOrCreate g (w_sourcesFileCache w));
            c = snd (getOrCreate g (w_sourcesFileCache w))
        in if content entry = None \<and> host_fileExists (compilerHost h) g
              \<and> isTemplateExtension (extname (helpers h) g)
           then c(g \<mapsto> entry\<lparr>content := host_readFile (compilerHost h) g, exists := Some True\<rparr>)
           else c)"
  by (simp add: readResource_def Let_def split: prod.splits option.splits)

lemma perform_knownExists:
  assumes "knownExists (w_sourcesFileCache w) f = Some b" and "b \<or> \<not> readsResource f call"
  shows "knownExists (w_sourcesFileCache (perform call w)) f = Some b"
proof (cases call)
  case (Pair h op)
  show ?thesis
    using assms unfolding Pair
    by (cases op)
       (auto simp: fileExists_def readFile_def getSourceFile_def readResource_sources
          readsResource_def knownExists_def getOrCreate_def emptyEntry_def Let_def
          split: option.splits prod.splits)
qed

lemma perform_knownContent:
  assumes "knownContent (w_sourcesFileCache w) f = Some c"
  shows "knownContent (w_sourcesFileCache (perform call w)) f = Some c"
proof (cases call)
  case (Pair h op)
  show ?thesis
    using assms unfolding Pair
    by (cases op)
       (auto simp: fileExists_def readFile_def getSourceFile_def readResource_sources
          knownContent_def getOrCreate_def emptyEntry_def Let_def
          split: option.splits prod.splits)
qed

lemma perform_knownSourceFile:
  assumes "knownSourceFile (w_sourcesFileCache w) f = Some sf" and "\<not> recreates f call"
  shows "knownSourceFile (w_sourcesFileCache (perform call w)) f = Some sf"
proof (cases call)
  case (Pair h op)
  show ?thesis
    using assms unfolding Pair
    by (cases op)
       (auto simp: fileExists_def readFile_def getSourceFile_def readResource_sources
          knownSourceFile_def getOrCreate_def recreates_def emptyEntry_def Let_def
          split: option.splits prod.splits)
qed

lemma performAll_knownExists:
  "knownExists (w_sourcesFileCache w) f = Some b
   \<Longrightarrow> b \<or> list_all (\<lambda>call. \<not> readsResource f call) calls
   \<Longrightarrow> knownExists (w_sourcesFileCache (performAll calls w)) f = Some b"
  unfolding performAll_def
proof (induction calls arbitrary: w)
  case Nil
  then show ?case by simp
next
  case (Cons call calls)
  from Cons.prems have "b \<or> \<not> readsResource f call"
    and rest: "b \<or> list_all (\<lambda>call. \<not> readsResource f call) calls"
    by auto
  from perform_knownExists [OF Cons.prems(1) this(1)]
  have "knownExists (w_sourcesFileCache (perform call w)) f = Some b" .
  from Cons.IH [OF this rest] show ?case
    by simp
qed

lemma performAll_knownContent:
  "knownContent (w_sourcesFileCache w) f = Some c
   \<Longrightarrow> knownContent (w_sourcesFileCache (performAll calls w)) f = Some c"
  unfolding performAll_def
  by (induction calls arbitrary: w) (simp_all add: perform_knownContent)

lemma performAll_knownSourceFile:
  "knownSourceFile (w_sourcesFileCache w) f = Some sf
   \<Longrightarrow> list_all (\<lambda>call. \<not> recreates f call) calls
   \<Longrightarrow> knownSourceFile (w_sourcesFileCache (performAll calls w)) f = Some sf"
  unfolding performAll_def
  by (induction calls arbitrary: w) (simp_all add: perform_knownSourceFile)

text \<open>
  C6, as stated, fails: a populated field does not last until the entry is evicted.
  After the parsed unit of \<^verbatim>\<open>/a.ts\<close> was cached, a \<^verbatim>\<open>getSourceFile\<close> call with
  \<^verbatim>\<open>shouldCreateNewSourceFile\<close> true replaces it with the answer of a host that has none,
  and the next call with the flag false asks the underlying host again and does not
  return the unit that was cached. And after \<^verbatim>\<open>/t.html\<close> was cached as not existing,
  \<^verbatim>\<open>readResource\<close> asks the underlying host itself and sets \<^verbatim>\<open>exists\<close> to true, so that
  \<^verbatim>\<open>fileExists\<close> no longer returns the value that was cached. No entry is evicted in
  either run.
\<close>

theorem content_cache_trusted_counterexample:
  "knownSourceFile (w_sourcesFileCache cachedWorld) ''/a.ts''
     = Some (SourceFile ''/a.ts'' ''text'')
   \<and> fst (getSourceFile changedHost ''/a.ts'' 0 False recreatedWorld) = None
   \<and> w_hostCalls (snd (getSourceFile changedHost ''/a.ts'' 0 False recreatedWorld))
       = w_hostCalls recreatedWorld @ [HostGetSourceFile ''/a.ts'' 0]
   \<and> knownExists (w_sourcesFileCache missingWorld) ''/t.html'' = Some False
   \<and> w_hostCalls (perform (sampleHost, ReadResourceOp ''/t.html'') missingWorld)
       = w_hostCalls missingWorld @ [HostFileExists ''/t.html'', HostReadFile ''/t.html'']
   \<and> fst (fileExists changedHost ''/t.html''
            (perform (sampleHost, ReadResourceOp ''/t.html'') missingWorld)) = True"
  by code_simp

text \<open>
  C6, amended. Let further calls of \<^verbatim>\<open>fileExists\<close>, \<^verbatim>\<open>readFile\<close>, \<^verbatim>\<open>getSourceFile\<close>,
  \<^verbatim>\<open>readResource\<close> and \<^verbatim>\<open>writeFile\<close> be made on any of the caching hosts, whatever the
  underlying hosts answer by then, and no entry be evicted. A populated \<^verbatim>\<open>content\<close>
  stays as it is; a populated \<^verbatim>\<open>exists\<close> stays as it is when it is true or when
  \<^verbatim>\<open>readResource\<close> is not called for that file; a populated \<^verbatim>\<open>sourceFile\<close> stays as it is
  when \<^verbatim>\<open>getSourceFile\<close> is not called with \<^verbatim>\<open>shouldCreateNewSourceFile\<close> true for that
  file. A call of \<^verbatim>\<open>fileExists\<close>, \<^verbatim>\<open>readFile\<close> or \<^verbatim>\<open>getSourceFile\<close> with the flag false
  then returns the cached value, records no call of the underlying host and leaves the
  cache as it is.
\<close>

theorem content_cache_trusted:
  "(knownExists (w_sourcesFileCache w) f = Some b
    \<and> (b \<or> list_all (\<lambda>call. \<not> readsResource f call) calls)
      \<longrightarrow> fileExists h f (performAll calls w) = (b, performAll calls w))
   \<and> (knownContent (w_sourcesFileCache w) f = Some c
      \<longrightarrow> fst (readFile h f (performAll calls w)) = Some c
        \<and> w_hostCalls (snd (readFile h f (performAll calls w)))
            = w_hostCalls (performAll calls w)
        \<and> w_sourcesFileCache (snd (readFile h f (performAll calls w)))
            = w_sourcesFileCache (performAll calls w))
   \<and> (knownSourceFile (w_sourcesFileCache w) f = Some sf
       \<and> list_all (\<lambda>call. \<not> recreates f call) calls
      \<longrightarrow> fst (getSourceFile h f v False (performAll calls w)) = Some sf
        \<and> w_hostCalls (snd (getSourceFile h f v False (performAll calls w)))
            = w_hostCalls (performAll calls w)
        \<and> w_sourcesFileCache (snd (getSourceFile h f v False (performAll calls w)))
            = w_sourcesFileCache (performAll calls w))"
  using fileExists_known [OF performAll_knownExists]
    readFile_known [OF performAll_knownContent]
    getSourceFile_known [OF performAll_knownSourceFile]
  by blast

theorem content_cache_trusted_witness:
  "knownExists (w_sourcesFileCache cachedWorld) ''/a.ts'' = Some True
   \<and> knownContent (w_sourcesFileCache cachedWorld) ''/a.ts'' = Some ''text''
   \<and> knownSourceFile (w_sourcesFileCache cachedWorld) ''/a.ts''
       = Some (SourceFile ''/a.ts'' ''text'')
   \<and> list_all (\<lambda>call. \<not> recreates ''/a.ts'' call) laterCalls
   \<and> fileExists changedHost ''/a.ts'' (performAll laterCalls cachedWorld)
       = (True, performAll laterCalls cachedWorld)
   \<and> fst (readFile changedHost ''/a.ts'' (performAll laterCalls cachedWorld)) = Some ''text''
   \<and> fst (getSourceFile changedHost ''/a.ts'' 0 False (performAll laterCalls cachedWorld))
       = Some (SourceFile ''/a.ts'' ''text'')
   \<and> w_hostCalls (snd (getSourceFile changedHost ''/a.ts'' 0 False
                          (performAll laterCalls cachedWorld)))
       = w_hostCalls (performAll laterCalls cachedWorld)
   \<and> knownExists (w_sourcesFileCache missingWorld) ''/t.html'' = Some False
   \<and> list_all (\<lambda>call. \<not> readsResource ''/t.html'' call) earlierCalls
   \<and> fileExists sampleHost ''/t.html'' (performAll earlierCalls missingWorld)
       = (False, performAll earlierCalls missingWorld)"
proof -
  have h1: "knownExists (w_sourcesFileCache cachedWorld) ''/a.ts'' = Some True"
    by code_simp
  have h2: "knownContent (w_sourcesFileCache cachedWorld) ''/a.ts'' = Some ''text''"
    by code_simp
  have h3: "knownSourceFile (w_sourcesFileCache cachedWorld) ''/a.ts''
      = Some (SourceFile ''/a.ts'' ''text'')"
    by code_simp
  have h4: "list_all (\<lambda>call. \<not> recreates ''/a.ts'' call) laterCalls"
    by code_simp
  have h5: "knownExists (w_sourcesFileCache missingWorld) ''/t.html'' = Some False"
    by code_simp
  have h6: "list_all (\<lambda>call. \<not> readsResource ''/t.html'' call) earlierCalls"
    by code_simp
  from content_cache_trusted
      [where w = cachedWorld and f = "''/a.ts''" and b = True and c = "''text''"
         and sf = "SourceFile ''/a.ts'' ''text''" and calls = laterCalls
         and h = changedHost and v = 0]
    content_cache_trusted
      [where w = missingWorld and f = "''/t.html''" and b = False and calls = earlierCalls
         and h = sampleHost]
    h1 h2 h3 h4 h5 h6 show ?thesis
    by simp
qed


section \<open>The first loop and duplicate paths\<close>

lemma graph_find_Some:
  "graph_find g p = Some r \<Longrightarrow> r \<in> set (store g) \<and> p (arena g ! r)"
  by (auto simp: graph_find_def find_Some_iff)

lemma resolved_resolveChanged:
  "resolved env g m \<Longrightarrow> resolved env g (resolveChanged env g f m)"
  using set_Map_set_subset [of f _ m]
  by (fastforce simp: resolved_def resolveChanged_def split: option.splits)

lemma resolveChanged_absorbed:
  assumes "resolved env g m"
    and "graph_find g (\<lambda>node. fileUrl env f = url node) = None \<or> f \<in> fst ` set m"
  shows "resolveChanged env g f m = m"
proof (cases "graph_find g (\<lambda>node. fileUrl env f = url node)")
  case None
  then show ?thesis by (simp add: resolveChanged_def)
next
  case (Some v)
  with assms(2) have "f \<in> fst ` set m" by simp
  moreover have "\<forall>v'. (f, v') \<in> set m \<longrightarrow> v' = v"
    using assms(1) Some by (auto simp: resolved_def)
  ultimately show ?thesis
    using Some by (simp add: resolveChanged_def Map_set_same)
qed

lemma keys_resolveChanged:
  "fst ` set m \<subseteq> fst ` set (resolveChanged env g f m)"
  "graph_find g (\<lambda>node. fileUrl env f = url node) \<noteq> None
   \<Longrightarrow> f \<in> fst ` set (resolveChanged env g f m)"
  by (auto simp: resolveChanged_def Map_set_keys split: option.splits)

lemma fold_Set_add_append: "\<exists>ys. fold Set_add xs acc = acc @ ys"
proof (induction xs arbitrary: acc)
  case Nil
  then show ?case by simp
next
  case (Cons x xs)
  show ?case
  proof (cases "x \<in> set acc")
    case True
    then have "Set_add x acc = acc"
      by (simp add: Set_add_def)
    with Cons [of acc] show ?thesis
      by simp
  next
    case False
    then have add: "Set_add x acc = acc @ [x]"
      by (simp add: Set_add_def)
    from Cons [of "acc @ [x]"] obtain ys where "fold Set_add xs (acc @ [x]) = (acc @ [x]) @ ys"
      by blast
    with add have "fold Set_add (x # xs) acc = acc @ (x # ys)"
      by simp
    then show ?thesis
      by blast
  qed
qed

lemma fold_resolveChanged_dedupe:
  assumes "resolved env g m"
    and "\<forall>f \<in> set acc. graph_find g (\<lambda>node. fileUrl env f = url node) = None \<or> f \<in> fst ` set m"
  shows "fold (resolveChanged env g) files m
       = fold (resolveChanged env g) (drop (length acc) (fold Set_add files acc)) m"
  using assms
proof (induction files arbitrary: acc m)
  case Nil
  then show ?case by simp
next
  case (Cons f files)
  show ?case
  proof (cases "f \<in> set acc")
    case True
    then have "resolveChanged env g f m = m"
      using Cons.prems by (intro resolveChanged_absorbed) auto
    moreover have "Set_add f acc = acc"
      using True by (simp add: Set_add_def)
    ultimately show ?thesis
      using Cons.IH [OF Cons.prems] by simp
  next
    case False
    let ?m = "resolveChanged env g f m"
    have add: "Set_add f acc = acc @ [f]"
      using False by (simp add: Set_add_def)
    have abs: "\<forall>f' \<in> set (acc @ [f]).
        graph_find g (\<lambda>node. fileUrl env f' = url node) = None \<or> f' \<in> fst ` set ?m"
    proof
      fix f'
      assume "f' \<in> set (acc @ [f])"
      then consider "f' \<in> set acc" | "f' = f"
        by auto
      then show "graph_find g (\<lambda>node. fileUrl env f' = url node) = None \<or> f' \<in> fst ` set ?m"
      proof cases
        case 1
        with Cons.prems(2) keys_resolveChanged(1) [of m env g f] show ?thesis
          by blast
      next
        case 2
        with keys_resolveChanged(2) [of g env f m] show ?thesis
          by blast
      qed
    qed
    from fold_Set_add_append [of files "acc @ [f]"]
    obtain ys where ys: "fold Set_add files (acc @ [f]) = (acc @ [f]) @ ys"
      by blast
    have "fold (resolveChanged env g) files ?m
        = fold (resolveChanged env g) (drop (length (acc @ [f])) (fold Set_add files (acc @ [f]))) ?m"
      by (rule Cons.IH [OF resolved_resolveChanged [OF Cons.prems(1)] abs])
    then show ?thesis
      by (simp add: add ys)
  qed
qed

lemma fold_resolveChanged_dedupe_start:
  "fold (resolveChanged env g) files [] = fold (resolveChanged env g) (dedupe files) []"
  using fold_resolveChanged_dedupe [of env g "[]" "[]" files]
  by (simp add: resolved_def dedupe_def)

text \<open>
  C8. A batch with duplicate paths gives the same result, the same graph, the same
  sources file cache and the same effects as the deduplicated batch: the first loop
  builds the same map from both.
\<close>

theorem duplicate_paths_idempotent:
  "invalidateEntryPointsAndCacheOnFileChange env g files sources
 = invalidateEntryPointsAndCacheOnFileChange env g (dedupe files) sources"
  by (simp add: invalidateEntryPointsAndCacheOnFileChange_def nodesToClean_def
        fold_resolveChanged_dedupe_start [of env g files])

theorem duplicate_paths_idempotent_witness:
  "dedupe [''/p.css'', ''/a.ts'', ''/p.css''] = [''/p.css'', ''/a.ts'']
   \<and> invalidateEntryPointsAndCacheOnFileChange sampleEnv sampleGraph
        [''/p.css'', ''/a.ts'', ''/p.css''] Map.empty
     = invalidateEntryPointsAndCacheOnFileChange sampleEnv sampleGraph
        [''/p.css'', ''/a.ts''] Map.empty"
proof -
  have d: "dedupe [''/p.css'', ''/a.ts'', ''/p.css''] = [''/p.css'', ''/a.ts'']"
    by code_simp
  from duplicate_paths_idempotent
      [of sampleEnv sampleGraph "[''/p.css'', ''/a.ts'', ''/p.css'']" Map.empty] d
  show ?thesis
    by simp
qed


section \<open>The second loop\<close>

lemma addDependeeToClean_cases:
  "allNodesToClean (addDependeeToClean env g r st) = allNodesToClean st
   \<or> (\<exists>p. fileUrlPath env (url (arena g ! r)) = Some p \<and> p \<noteq> []
        \<and> allNodesToClean (addDependeeToClean env g r st) = Map_set p r (allNodesToClean st))"
  by (auto simp: addDependeeToClean_def Let_def split: option.splits)

lemma addDependeeToClean_frame [simp]:
  "events (addDependeeToClean env g r st) = events st"
  "sourcesFileCache (addDependeeToClean env g r st) = sourcesFileCache st"
  by (auto simp: addDependeeToClean_def Let_def split: option.splits)

lemma fold_addDependeeToClean_frame [simp]:
  "events (fold (addDependeeToClean env g) rs st) = events st"
  "sourcesFileCache (fold (addDependeeToClean env g) rs st) = sourcesFileCache st"
  by (induction rs arbitrary: st) simp_all

lemma cleanNode_events:
  "events (cleanNode env g e st) = events st @ [SourcesFileCacheDelete (fst e)]"
  by (simp add: cleanNode_def Let_def)

lemma cleanNode_sources:
  "sourcesFileCache (cleanNode env g e st) = FileCache_delete (fst e) (sourcesFileCache st)"
  by (simp add: cleanNode_def Let_def)

lemma fold_addDependeeToClean_invariant:
  assumes "P (allNodesToClean st)"
    and "\<And>m r p. P m \<Longrightarrow> r \<in> set rs \<Longrightarrow> fileUrlPath env (url (arena g ! r)) = Some p
           \<Longrightarrow> p \<noteq> [] \<Longrightarrow> P (Map_set p r m)"
  shows "P (allNodesToClean (fold (addDependeeToClean env g) rs st))"
  using assms
proof (induction rs arbitrary: st)
  case Nil
  then show ?case by simp
next
  case (Cons r rs)
  have step: "P (allNodesToClean (addDependeeToClean env g r st))"
  proof -
    from addDependeeToClean_cases [of env g r st]
    consider "allNodesToClean (addDependeeToClean env g r st) = allNodesToClean st"
      | p where "fileUrlPath env (url (arena g ! r)) = Some p" "p \<noteq> []"
          "allNodesToClean (addDependeeToClean env g r st) = Map_set p r (allNodesToClean st)"
      by blast
    then show ?thesis
    proof cases
      case 1
      with Cons.prems(1) show ?thesis by simp
    next
      case 2
      have "P (Map_set p r (allNodesToClean st))"
        by (rule Cons.prems(2) [OF Cons.prems(1) _ 2(1) 2(2)]) simp
      with 2(3) show ?thesis by simp
    qed
  qed
  have "P (allNodesToClean (fold (addDependeeToClean env g) rs (addDependeeToClean env g r st)))"
  proof (rule Cons.IH [OF step])
    fix m r' p
    assume "P m" "r' \<in> set rs" "fileUrlPath env (url (arena g ! r')) = Some p" "p \<noteq> []"
    then show "P (Map_set p r' m)"
      using Cons.prems(2) [of m r' p] by simp
  qed
  then show ?case by simp
qed

lemma cleanNode_invariant:
  assumes "P (allNodesToClean st)"
    and "\<And>m r p. P m \<Longrightarrow> r < length (arena g) \<Longrightarrow> fileUrlPath env (url (arena g ! r)) = Some p
           \<Longrightarrow> p \<noteq> [] \<Longrightarrow> P (Map_set p r m)"
  shows "P (allNodesToClean (cleanNode env g e st))"
proof (cases "endsWith (fst e) ''.ts''")
  case True
  with assms(1) show ?thesis
    by (simp add: cleanNode_def Let_def)
next
  case False
  let ?st = "st\<lparr>sourcesFileCache := FileCache_delete (fst e) (sourcesFileCache st),
                 events := events st @ [SourcesFileCacheDelete (fst e)],
                 potentialStylesResources := Set_add (fst e) (potentialStylesResources st)\<rparr>"
  have "P (allNodesToClean (fold (addDependeeToClean env g)
            (live g (dependees (arena g ! snd e))) ?st))"
  proof (rule fold_addDependeeToClean_invariant)
    show "P (allNodesToClean ?st)"
      using assms(1) by simp
  next
    fix m r p
    assume "P m" "r \<in> set (live g (dependees (arena g ! snd e)))"
      "fileUrlPath env (url (arena g ! r)) = Some p" "p \<noteq> []"
    then show "P (Map_set p r m)"
      using assms(2) [of m r p] by (simp add: live_def)
  qed
  with False show ?thesis
    by (simp add: cleanNode_def Let_def)
qed

lemma cleanLoop_invariant:
  assumes "P (allNodesToClean st)"
    and "\<And>m r p. P m \<Longrightarrow> r < length (arena g) \<Longrightarrow> fileUrlPath env (url (arena g ! r)) = Some p
           \<Longrightarrow> p \<noteq> [] \<Longrightarrow> P (Map_set p r m)"
  shows "P (allNodesToClean (cleanLoop env g i st))"
  using assms
proof (induction env g i st rule: cleanLoop.induct)
  case (1 env g i st)
  show ?case
  proof (cases "i < length (allNodesToClean st)")
    case True
    let ?st = "cleanNode env g (allNodesToClean st ! i) st"
    have step: "P (allNodesToClean ?st)"
    proof (rule cleanNode_invariant)
      show "P (allNodesToClean st)"
        by (rule "1.prems"(1))
    next
      fix m r p
      assume "P m" "r < length (arena g)" "fileUrlPath env (url (arena g ! r)) = Some p" "p \<noteq> []"
      then show "P (Map_set p r m)"
        by (rule "1.prems"(2))
    qed
    have "P (allNodesToClean (cleanLoop env g (Suc i) ?st))"
    proof (rule "1.IH" [OF True step])
      fix m r p
      assume "P m" "r < length (arena g)" "fileUrlPath env (url (arena g ! r)) = Some p" "p \<noteq> []"
      then show "P (Map_set p r m)"
        by (rule "1.prems"(2))
    qed
    with True show ?thesis
      by (simp add: cleanLoop.simps [of env g i st])
  next
    case False
    with "1.prems"(1) show ?thesis
      by (simp add: cleanLoop.simps [of env g i st])
  qed
qed


section \<open>Termination and the to-clean map\<close>

lemma distinct_keys_resolveChanged:
  "distinct (map fst m) \<Longrightarrow> distinct (map fst (fold (resolveChanged env g) files m))"
  by (induction files arbitrary: m)
     (auto simp: resolveChanged_def distinct_Map_set split: option.splits)

lemma length_resolveChanged:
  "length (fold (resolveChanged env g) files m) \<le> length m + length files"
proof (induction files arbitrary: m)
  case Nil
  then show ?case by simp
next
  case (Cons f files)
  have "length (resolveChanged env g f m) \<le> Suc (length m)"
    by (simp add: resolveChanged_def Map_set_length split: option.splits)
  with Cons [of "resolveChanged env g f m"] show ?case
    by simp
qed

lemma keyedByPath_Map_set:
  "keyedByPath env g m \<Longrightarrow> fileUrlPath env (url (arena g ! r)) = Some p
   \<Longrightarrow> keyedByPath env g (Map_set p r m)"
  using set_Map_set_subset [of p r m] by (auto simp: keyedByPath_def)

lemma keyedByPath_resolveChanged:
  assumes "\<forall>p. fileUrlPath env (fileUrl env p) = Some p" and "keyedByPath env g m"
  shows "keyedByPath env g (fold (resolveChanged env g) files m)"
  using assms(2)
proof (induction files arbitrary: m)
  case Nil
  then show ?case by simp
next
  case (Cons f files)
  have "keyedByPath env g (resolveChanged env g f m)"
  proof (cases "graph_find g (\<lambda>node. fileUrl env f = url node)")
    case None
    with Cons.prems show ?thesis by (simp add: resolveChanged_def)
  next
    case (Some v)
    from graph_find_Some [OF Some] have "url (arena g ! v) = fileUrl env f"
      by simp
    with assms(1) have "fileUrlPath env (url (arena g ! v)) = Some f"
      by simp
    with Cons.prems Some show ?thesis
      by (simp add: resolveChanged_def keyedByPath_Map_set)
  qed
  from Cons.IH [OF this] show ?case by simp
qed

lemma distinct_nodes:
  assumes "distinct (map fst m)" and "keyedByPath env g m"
  shows "distinct (map snd m)"
proof -
  have "map fst m = map (\<lambda>n. the (fileUrlPath env (url (arena g ! n)))) (map snd m)"
    using assms(2) by (auto simp: keyedByPath_def)
  with assms(1) show ?thesis
    by (metis distinct_map)
qed

lemma card_arenaPaths: "card (arenaPaths env g) \<le> length (arena g)"
proof -
  have "arenaPaths env g \<subseteq> (\<lambda>n. the (fileUrlPath env (url n))) ` set (arena g)"
    by (force simp: arenaPaths_def)
  then have "card (arenaPaths env g) \<le> card ((\<lambda>n. the (fileUrlPath env (url n))) ` set (arena g))"
    by (intro card_mono) simp_all
  also have "\<dots> \<le> card (set (arena g))"
    by (rule card_image_le) simp
  also have "\<dots> \<le> length (arena g)"
    by (rule card_length)
  finally show ?thesis .
qed

lemma budget_cleanLoop:
  "budget env g (allNodesToClean (cleanLoop env g i st)) = budget env g (allNodesToClean st)"
proof (rule cleanLoop_invariant
    [where P = "\<lambda>m. budget env g m = budget env g (allNodesToClean st)"])
  show "budget env g (allNodesToClean st) = budget env g (allNodesToClean st)"
    by simp
next
  fix m r p
  assume m: "budget env g m = budget env g (allNodesToClean st)"
    and "r < length (arena g)" "fileUrlPath env (url (arena g ! r)) = Some p"
  then have "p \<in> arenaPaths env g"
    by (auto simp: arenaPaths_def intro!: bexI [of _ "arena g ! r"])
  with m show "budget env g (Map_set p r m) = budget env g (allNodesToClean st)"
    by (simp add: budget_Map_set)
qed

lemma distinct_keys_cleanLoop:
  assumes "distinct (map fst (allNodesToClean st))"
  shows "distinct (map fst (allNodesToClean (cleanLoop env g i st)))"
  by (rule cleanLoop_invariant [where P = "\<lambda>m. distinct (map fst m)"])
     (simp_all add: assms distinct_Map_set)

lemma keyedByPath_cleanLoop:
  assumes "keyedByPath env g (allNodesToClean st)"
  shows "keyedByPath env g (allNodesToClean (cleanLoop env g i st))"
  by (rule cleanLoop_invariant [where P = "keyedByPath env g"])
     (simp_all add: assms keyedByPath_Map_set)

text \<open>
  C3. The walk over the to-clean map ends on every graph, cyclic or not: \<open>cleanLoop\<close> is
  a total function (its termination is proved with the measure \<open>budget\<close>), and its body
  runs once per entry of the final map, which has at most one entry per changed path and
  per node of the arena. The keys of the final map are distinct; and when \<^verbatim>\<open>fileUrlPath\<close>
  takes back what \<^verbatim>\<open>fileUrl\<close> has put in front of a path, no node stands in it twice.
\<close>

theorem cleaning_is_cycle_safe:
  "distinct (map fst (allNodesToClean (nodesToClean env g files sources)))
   \<and> length (allNodesToClean (nodesToClean env g files sources)) \<le> length files + length (arena g)
   \<and> ((\<forall>p. fileUrlPath env (fileUrl env p) = Some p)
      \<longrightarrow> distinct (map snd (allNodesToClean (nodesToClean env g files sources))))"
proof (intro conjI impI)
  let ?m0 = "fold (resolveChanged env g) files []"
  let ?st0 = "\<lparr>allNodesToClean = ?m0, potentialStylesResources = [],
               sourcesFileCache = sources, events = []\<rparr>"
  have d0: "distinct (map fst ?m0)"
    by (rule distinct_keys_resolveChanged) simp
  show keys: "distinct (map fst (allNodesToClean (nodesToClean env g files sources)))"
    unfolding nodesToClean_def by (rule distinct_keys_cleanLoop) (simp add: d0)
  have "length (allNodesToClean (cleanLoop env g 0 ?st0))
      \<le> budget env g (allNodesToClean (cleanLoop env g 0 ?st0))"
    by (rule length_le_budget)
  also have "\<dots> = budget env g ?m0"
    by (simp add: budget_cleanLoop)
  also have "\<dots> \<le> length ?m0 + card (arenaPaths env g)"
    by (simp add: budget_def card_mono finite_arenaPaths)
  also have "\<dots> \<le> length files + length (arena g)"
    using length_resolveChanged [of env g files "[]"] card_arenaPaths [of env g] by simp
  finally show "length (allNodesToClean (nodesToClean env g files sources))
      \<le> length files + length (arena g)"
    by (simp add: nodesToClean_def)
  assume law: "\<forall>p. fileUrlPath env (fileUrl env p) = Some p"
  have "keyedByPath env g ?m0"
    by (rule keyedByPath_resolveChanged [OF law]) (simp add: keyedByPath_def)
  then have "keyedByPath env g (allNodesToClean (nodesToClean env g files sources))"
    unfolding nodesToClean_def by (intro keyedByPath_cleanLoop) simp
  with keys show "distinct (map snd (allNodesToClean (nodesToClean env g files sources)))"
    by (rule distinct_nodes)
qed

theorem cleaning_is_cycle_safe_witness:
  "(\<forall>p. fileUrlPath sampleEnv (fileUrl sampleEnv p) = Some p)
   \<and> allNodesToClean (nodesToClean sampleEnv cycleGraph [''/a.css''] Map.empty)
       = [(''/a.css'', 1), (''/b.css'', 2)]
   \<and> distinct (map fst (allNodesToClean (nodesToClean sampleEnv cycleGraph [''/a.css''] Map.empty)))
   \<and> distinct (map snd (allNodesToClean (nodesToClean sampleEnv cycleGraph [''/a.css''] Map.empty)))"
proof -
  have law: "\<forall>p. fileUrlPath sampleEnv (fileUrl sampleEnv p) = Some p"
    by (simp add: sampleEnv_def)
  have run: "allNodesToClean (nodesToClean sampleEnv cycleGraph [''/a.css''] Map.empty)
      = [(''/a.css'', 1), (''/b.css'', 2)]"
    by code_simp
  from cleaning_is_cycle_safe [of sampleEnv cycleGraph "[''/a.css'']" Map.empty] law run
  show ?thesis
    by blast
qed


section \<open>The third loop\<close>

lemma sameEdges_refl [simp]: "sameEdges g g"
  by (simp add: sameEdges_def)

lemma sameEdges_trans: "sameEdges g g' \<Longrightarrow> sameEdges g' g'' \<Longrightarrow> sameEdges g g''"
  by (simp add: sameEdges_def)

lemma dirtyBy_sameEdges: "sameEdges g g' \<Longrightarrow> dirtyBy g' m rs ep = dirtyBy g m rs ep"
  by (simp add: dirtyBy_def sameEdges_def stylesInvalidated_def)

lemma cleanDependent_props:
  "sameEdges (graph mk) (graph (cleanDependent ep e mk))"
  "isDirty (cleanDependent ep e mk)
     = (isDirty mk \<or> snd e \<in> set (dependents (arena (graph mk) ! ep)))"
  "invalidatedEntryPoint (cleanDependent ep e mk) = invalidatedEntryPoint mk"
  "state (arena (graph (cleanDependent ep e mk)) ! r) = state (arena (graph mk) ! r)"
  by (auto simp: cleanDependent_def Let_def sameEdges_def nth_update_node)

lemma cleanDependent_effects:
  "\<exists>es. effects (cleanDependent ep e mk) = effects mk @ es
        \<and> list_all (\<lambda>e. \<not> isGlobalEviction e) es"
  by (simp add: cleanDependent_def Let_def)

lemma fold_cleanDependent_props:
  "sameEdges (graph mk) (graph (fold (cleanDependent ep) m mk))
   \<and> isDirty (fold (cleanDependent ep) m mk)
       = (isDirty mk \<or> (\<exists>e \<in> set m. snd e \<in> set (dependents (arena (graph mk) ! ep))))
   \<and> invalidatedEntryPoint (fold (cleanDependent ep) m mk) = invalidatedEntryPoint mk
   \<and> (\<forall>r. state (arena (graph (fold (cleanDependent ep) m mk)) ! r)
           = state (arena (graph mk) ! r))"
proof (induction m arbitrary: mk)
  case Nil
  then show ?case by simp
next
  case (Cons e m)
  let ?mk = "cleanDependent ep e mk"
  have same: "sameEdges (graph mk) (graph ?mk)"
    by (rule cleanDependent_props)
  then have deps: "dependents (arena (graph ?mk) ! ep) = dependents (arena (graph mk) ! ep)"
    by (simp add: sameEdges_def)
  from Cons [of ?mk]
  have ih1: "sameEdges (graph ?mk) (graph (fold (cleanDependent ep) m ?mk))"
    and ih2: "isDirty (fold (cleanDependent ep) m ?mk)
        = (isDirty ?mk \<or> (\<exists>e \<in> set m. snd e \<in> set (dependents (arena (graph mk) ! ep))))"
    and ih3: "invalidatedEntryPoint (fold (cleanDependent ep) m ?mk) = invalidatedEntryPoint ?mk"
    and ih4: "\<And>r. state (arena (graph (fold (cleanDependent ep) m ?mk)) ! r)
        = state (arena (graph ?mk) ! r)"
    unfolding deps by blast+
  have "sameEdges (graph mk) (graph (fold (cleanDependent ep) m ?mk))"
    by (rule sameEdges_trans [OF same ih1])
  then show ?case
    by (simp add: ih2 ih3 ih4 cleanDependent_props disj_assoc)
qed

lemma fold_cleanDependent_effects:
  "\<exists>es. effects (fold (cleanDependent ep) m mk) = effects mk @ es
        \<and> list_all (\<lambda>e. \<not> isGlobalEviction e) es"
proof (induction m arbitrary: mk)
  case Nil
  then show ?case by simp
next
  case (Cons e m)
  from cleanDependent_effects [of ep e mk] obtain es1
    where es1: "effects (cleanDependent ep e mk) = effects mk @ es1"
      "list_all (\<lambda>e. \<not> isGlobalEviction e) es1"
    by blast
  from Cons [of "cleanDependent ep e mk"] obtain es2
    where es2: "effects (fold (cleanDependent ep) m (cleanDependent ep e mk))
        = effects (cleanDependent ep e mk) @ es2"
      "list_all (\<lambda>e. \<not> isGlobalEviction e) es2"
    by blast
  have "effects (fold (cleanDependent ep) (e # m) mk) = effects mk @ (es1 @ es2)"
    using es1(1) es2(1) by simp
  moreover have "list_all (\<lambda>e. \<not> isGlobalEviction e) (es1 @ es2)"
    using es1(2) es2(2) by simp
  ultimately show ?case
    by blast
qed

lemma markEntryPoint_props:
  "sameEdges (graph mk) (graph (markEntryPoint m rs ep mk))
   \<and> isDirty (markEntryPoint m rs ep mk) = dirtyBy (graph mk) m rs ep
   \<and> invalidatedEntryPoint (markEntryPoint m rs ep mk)
       = (invalidatedEntryPoint mk \<or> dirtyBy (graph mk) m rs ep)
   \<and> (\<forall>r. state (arena (graph (markEntryPoint m rs ep mk)) ! r)
           = (if r = ep \<and> ep < length (arena (graph mk)) \<and> dirtyBy (graph mk) m rs ep
              then STATE_PENDING else state (arena (graph mk) ! r)))"
proof -
  let ?mk1 = "if rs \<noteq> []
      then mk\<lparr>isDirty := stylesInvalidated (arena (graph mk) ! ep) rs,
              effects := effects mk @ stylesEvents ep (arena (graph mk) ! ep) rs\<rparr>
      else mk\<lparr>isDirty := False\<rparr>"
  let ?mk2 = "fold (cleanDependent ep) m ?mk1"
  have g1: "graph ?mk1 = graph mk" and i1: "invalidatedEntryPoint ?mk1 = invalidatedEntryPoint mk"
    and d1: "isDirty ?mk1 = (rs \<noteq> [] \<and> stylesInvalidated (arena (graph mk) ! ep) rs)"
    by simp_all
  from fold_cleanDependent_props [of ?mk1 ep m]
  have same: "sameEdges (graph mk) (graph ?mk2)"
    and dirty: "isDirty ?mk2 = dirtyBy (graph mk) m rs ep"
    and inv: "invalidatedEntryPoint ?mk2 = invalidatedEntryPoint mk"
    and st: "\<And>r. state (arena (graph ?mk2) ! r) = state (arena (graph mk) ! r)"
    unfolding g1 i1 d1 dirtyBy_def by blast+
  have len: "length (arena (graph ?mk2)) = length (arena (graph mk))"
    using same by (simp add: sameEdges_def)
  have same': "sameEdges (graph ?mk2)
      (update_node ep (\<lambda>n. n\<lparr>state := STATE_PENDING\<rparr>) (graph ?mk2))"
    by (simp add: sameEdges_def nth_update_node)
  have mk: "markEntryPoint m rs ep mk
      = (if isDirty ?mk2
         then ?mk2\<lparr>graph := update_node ep (\<lambda>n. n\<lparr>state := STATE_PENDING\<rparr>) (graph ?mk2),
                   invalidatedEntryPoint := True,
                   effects := effects ?mk2 @ [SetState ep STATE_PENDING]\<rparr>
         else ?mk2)"
    by (simp add: markEntryPoint_def Let_def)
  show ?thesis
  proof (cases "dirtyBy (graph mk) m rs ep")
    case True
    with dirty have "isDirty ?mk2" by simp
    with mk have eq: "markEntryPoint m rs ep mk
        = ?mk2\<lparr>graph := update_node ep (\<lambda>n. n\<lparr>state := STATE_PENDING\<rparr>) (graph ?mk2),
                invalidatedEntryPoint := True,
                effects := effects ?mk2 @ [SetState ep STATE_PENDING]\<rparr>"
      by simp
    show ?thesis
      unfolding eq using True dirty same same' len st
      by (auto simp: nth_update_node intro: sameEdges_trans)
  next
    case False
    with dirty have "\<not> isDirty ?mk2" by simp
    with mk have eq: "markEntryPoint m rs ep mk = ?mk2"
      by simp
    show ?thesis
      unfolding eq using False dirty same inv st by simp
  qed
qed

lemma markEntryPoint_effects:
  "\<exists>es. effects (markEntryPoint m rs ep mk) = effects mk @ es
        \<and> list_all (\<lambda>e. \<not> isGlobalEviction e) es"
proof -
  let ?mk1 = "if rs \<noteq> []
      then mk\<lparr>isDirty := stylesInvalidated (arena (graph mk) ! ep) rs,
              effects := effects mk @ stylesEvents ep (arena (graph mk) ! ep) rs\<rparr>
      else mk\<lparr>isDirty := False\<rparr>"
  have "\<exists>es. effects ?mk1 = effects mk @ es \<and> list_all (\<lambda>e. \<not> isGlobalEviction e) es"
    by (simp add: stylesEvents_def split: option.splits)
  then obtain es1 where es1: "effects ?mk1 = effects mk @ es1"
    "list_all (\<lambda>e. \<not> isGlobalEviction e) es1"
    by blast
  from fold_cleanDependent_effects [of ep m ?mk1] obtain es2
    where es2: "effects (fold (cleanDependent ep) m ?mk1) = effects ?mk1 @ es2"
      "list_all (\<lambda>e. \<not> isGlobalEviction e) es2"
    by blast
  have "effects (markEntryPoint m rs ep mk) = effects mk @ (es1 @ es2)
      \<or> effects (markEntryPoint m rs ep mk) = effects mk @ (es1 @ es2 @ [SetState ep STATE_PENDING])"
    using es1(1) es2(1) by (simp add: markEntryPoint_def Let_def)
  moreover have "list_all (\<lambda>e. \<not> isGlobalEviction e) (es1 @ es2)"
    "list_all (\<lambda>e. \<not> isGlobalEviction e) (es1 @ es2 @ [SetState ep STATE_PENDING])"
    using es1(2) es2(2) by simp_all
  ultimately show ?thesis
    by blast
qed

lemma fold_markEntryPoint_props:
  assumes "sameEdges g (graph mk)"
  shows "sameEdges g (graph (fold (markEntryPoint m rs) eps mk))
   \<and> invalidatedEntryPoint (fold (markEntryPoint m rs) eps mk)
       = (invalidatedEntryPoint mk \<or> (\<exists>ep \<in> set eps. dirtyBy g m rs ep))
   \<and> (\<forall>r. state (arena (graph (fold (markEntryPoint m rs) eps mk)) ! r)
           = (if r \<in> set eps \<and> r < length (arena g) \<and> dirtyBy g m rs r
              then STATE_PENDING else state (arena (graph mk) ! r)))"
  using assms
proof (induction eps arbitrary: mk)
  case Nil
  then show ?case by simp
next
  case (Cons ep eps)
  let ?mk = "markEntryPoint m rs ep mk"
  have d: "dirtyBy (graph mk) m rs ep = dirtyBy g m rs ep"
    by (rule dirtyBy_sameEdges [OF Cons.prems])
  have len: "length (arena (graph mk)) = length (arena g)"
    using Cons.prems by (simp add: sameEdges_def)
  from markEntryPoint_props [of mk m rs ep]
  have same: "sameEdges (graph mk) (graph ?mk)"
    and inv: "invalidatedEntryPoint ?mk = (invalidatedEntryPoint mk \<or> dirtyBy g m rs ep)"
    and st: "\<And>r. state (arena (graph ?mk) ! r)
        = (if r = ep \<and> ep < length (arena g) \<and> dirtyBy g m rs ep
           then STATE_PENDING else state (arena (graph mk) ! r))"
    unfolding d len by blast+
  have "sameEdges g (graph ?mk)"
    by (rule sameEdges_trans [OF Cons.prems same])
  from Cons.IH [OF this] show ?case
    by (auto simp: inv st)
qed

lemma fold_markEntryPoint_effects:
  "\<exists>es. effects (fold (markEntryPoint m rs) eps mk) = effects mk @ es
        \<and> list_all (\<lambda>e. \<not> isGlobalEviction e) es"
proof (induction eps arbitrary: mk)
  case Nil
  then show ?case by simp
next
  case (Cons ep eps)
  from markEntryPoint_effects [of m rs ep mk] obtain es1
    where es1: "effects (markEntryPoint m rs ep mk) = effects mk @ es1"
      "list_all (\<lambda>e. \<not> isGlobalEviction e) es1"
    by blast
  from Cons [of "markEntryPoint m rs ep mk"] obtain es2
    where es2: "effects (fold (markEntryPoint m rs) eps (markEntryPoint m rs ep mk))
        = effects (markEntryPoint m rs ep mk) @ es2"
      "list_all (\<lambda>e. \<not> isGlobalEviction e) es2"
    by blast
  have "effects (fold (markEntryPoint m rs) (ep # eps) mk) = effects mk @ (es1 @ es2)"
    using es1(1) es2(1) by simp
  moreover have "list_all (\<lambda>e. \<not> isGlobalEviction e) (es1 @ es2)"
    using es1(2) es2(2) by simp
  ultimately show ?case
    by blast
qed


section \<open>Dirty entry points\<close>

lemma markedDirty_dirtyBy:
  "markedDirty env g files sources ep
 = dirtyBy g (allNodesToClean (nodesToClean env g files sources))
     (potentialStylesResources (nodesToClean env g files sources)) ep"
  using markEntryPoint_props
    [of "\<lparr>graph = g, isDirty = False, invalidatedEntryPoint = False, effects = []\<rparr>"]
  by (simp add: markedDirty_def Let_def)

text \<open>
  C4. The function returns true exactly when some entry point of the graph was marked
  dirty; after the pass the state of a node is \<^verbatim>\<open>STATE_PENDING\<close> when it is an entry point
  of the graph that was marked dirty, and its prior state otherwise.
\<close>

theorem dirty_entry_points_pending:
  "returned (invalidateEntryPointsAndCacheOnFileChange env g files sources)
     = (\<exists>ep \<in> set (graph_filter g isEntryPoint). markedDirty env g files sources ep)
   \<and> (\<forall>r. state (arena (graphAfter
              (invalidateEntryPointsAndCacheOnFileChange env g files sources)) ! r)
           = (if r \<in> set (graph_filter g isEntryPoint) \<and> r < length (arena g)
                 \<and> markedDirty env g files sources r
              then STATE_PENDING else state (arena g ! r)))"
  using fold_markEntryPoint_props
    [of g "\<lparr>graph = g, isDirty = False, invalidatedEntryPoint = False,
            effects = events (nodesToClean env g files sources)\<rparr>"
        "allNodesToClean (nodesToClean env g files sources)"
        "potentialStylesResources (nodesToClean env g files sources)"
        "graph_filter g isEntryPoint"]
  by (simp add: invalidateEntryPointsAndCacheOnFileChange_def Let_def markedDirty_dirtyBy)


theorem dirty_entry_points_pending_witness:
  "0 \<in> set (graph_filter sampleGraph isEntryPoint)
   \<and> markedDirty sampleEnv sampleGraph [''/p.css''] Map.empty 0
   \<and> returned (invalidateEntryPointsAndCacheOnFileChange sampleEnv sampleGraph [''/p.css'']
                  Map.empty)
   \<and> state (arena (graphAfter (invalidateEntryPointsAndCacheOnFileChange sampleEnv sampleGraph
                                  [''/p.css''] Map.empty)) ! 0) = STATE_PENDING
   \<and> state (arena (graphAfter (invalidateEntryPointsAndCacheOnFileChange sampleEnv sampleGraph
                                  [''/p.css''] Map.empty)) ! 1) = state (arena sampleGraph ! 1)"
proof -
  have h1: "0 \<in> set (graph_filter sampleGraph isEntryPoint)"
    by code_simp
  have h2: "markedDirty sampleEnv sampleGraph [''/p.css''] Map.empty 0"
    by code_simp
  have h3: "1 \<notin> set (graph_filter sampleGraph isEntryPoint)"
    by code_simp
  have h4: "0 < length (arena sampleGraph)"
    by code_simp
  note inst = dirty_entry_points_pending [of sampleEnv sampleGraph "[''/p.css'']" Map.empty]
  from inst h1 h2
  have r: "returned (invalidateEntryPointsAndCacheOnFileChange sampleEnv sampleGraph
      [''/p.css''] Map.empty)"
    by blast
  from inst
  have st: "state (arena (graphAfter (invalidateEntryPointsAndCacheOnFileChange sampleEnv
        sampleGraph [''/p.css''] Map.empty)) ! r)
      = (if r \<in> set (graph_filter sampleGraph isEntryPoint) \<and> r < length (arena sampleGraph)
            \<and> markedDirty sampleEnv sampleGraph [''/p.css''] Map.empty r
         then STATE_PENDING else state (arena sampleGraph ! r))" for r
    by blast
  from st [of 0] st [of 1] h1 h2 h3 h4 r show ?thesis
    by simp
qed


section \<open>The order of the effects\<close>

lemma prefix_keys_cleanNode:
  "prefix (map fst (allNodesToClean st)) (map fst (allNodesToClean (cleanNode env g e st)))"
proof (rule cleanNode_invariant
    [where P = "\<lambda>m. prefix (map fst (allNodesToClean st)) (map fst m)"])
  show "prefix (map fst (allNodesToClean st)) (map fst (allNodesToClean st))"
    by simp
next
  fix m :: "(string \<times> ref) list" and r :: ref and p :: string
  assume "prefix (map fst (allNodesToClean st)) (map fst m)"
  then show "prefix (map fst (allNodesToClean st)) (map fst (Map_set p r m))"
    using prefix_keys_Map_set [of m p r] by (rule prefix_order.trans)
qed

lemma prefix_keys_cleanLoop:
  "prefix (map fst (allNodesToClean st)) (map fst (allNodesToClean (cleanLoop env g i st)))"
proof (rule cleanLoop_invariant
    [where P = "\<lambda>m. prefix (map fst (allNodesToClean st)) (map fst m)"])
  show "prefix (map fst (allNodesToClean st)) (map fst (allNodesToClean st))"
    by simp
next
  fix m :: "(string \<times> ref) list" and r :: ref and p :: string
  assume "prefix (map fst (allNodesToClean st)) (map fst m)"
  then show "prefix (map fst (allNodesToClean st)) (map fst (Map_set p r m))"
    using prefix_keys_Map_set [of m p r] by (rule prefix_order.trans)
qed

lemma events_cleanLoop:
  assumes "i \<le> length (allNodesToClean st)"
  shows "events (cleanLoop env g i st)
       = events st @ map SourcesFileCacheDelete
           (drop i (map fst (allNodesToClean (cleanLoop env g i st))))"
  using assms
proof (induction env g i st rule: cleanLoop.induct)
  case (1 env g i st)
  let ?m = "allNodesToClean st"
  show ?case
  proof (cases "i < length ?m")
    case True
    let ?st = "cleanNode env g (?m ! i) st"
    let ?final = "cleanLoop env g (Suc i) ?st"
    let ?keys = "map fst (allNodesToClean ?final)"
    have unfold: "cleanLoop env g i st = ?final"
      using True by (simp add: cleanLoop.simps [of env g i st])
    have p1: "prefix (map fst ?m) (map fst (allNodesToClean ?st))"
      by (rule prefix_keys_cleanNode)
    have p2: "prefix (map fst (allNodesToClean ?st)) ?keys"
      by (rule prefix_keys_cleanLoop)
    from p1 have "length ?m \<le> length (allNodesToClean ?st)"
      using prefix_length_le by fastforce
    with True have "Suc i \<le> length (allNodesToClean ?st)"
      by simp
    from "1.IH" [OF True this]
    have ih: "events ?final = events ?st @ map SourcesFileCacheDelete (drop (Suc i) ?keys)" .
    from p1 p2 have "prefix (map fst ?m) ?keys"
      by (rule prefix_order.trans)
    then obtain zs where zs: "?keys = map fst ?m @ zs"
      by (auto simp: prefix_def)
    have key: "?keys ! i = fst (?m ! i)"
      using True by (simp add: zs nth_append)
    have "i < length ?keys"
      using True by (simp add: zs)
    then have "drop i ?keys = fst (?m ! i) # drop (Suc i) ?keys"
      using key by (metis Cons_nth_drop_Suc)
    then show ?thesis
      unfolding unfold by (simp add: ih cleanNode_events)
  next
    case False
    then have stop: "cleanLoop env g i st = st"
      by (simp add: cleanLoop.simps [of env g i st])
    from False "1.prems" have "i = length ?m"
      by simp
    then show ?thesis
      unfolding stop by simp
  qed
qed

text \<open>
  C7, as stated, fails: in the pass for \<^verbatim>\<open>/a.css\<close> both deletions from the sources file
  cache come first, before the entry point's stylesheet processor is asked, before its
  analyses cache is touched and before its state is set.
\<close>

theorem global_eviction_first_counterexample:
  "trace (invalidateEntryPointsAndCacheOnFileChange sampleEnv sampleGraph [''/a.css''] Map.empty)
     = [SourcesFileCacheDelete ''/a.css'', SourcesFileCacheDelete ''/a.ts'',
        StylesheetInvalidate 0 [''/a.css''],
        AnalysesSourcesFileCacheDelete 0 ''/a.ts'', SetState 0 STATE_PENDING]"
  by code_simp

text \<open>
  C7, amended. Within one pass the deletions from the sources file cache, one per entry
  of the final to-clean map and in its order, all happen before any call of a stylesheet
  processor, any deletion from an entry point's analyses cache and any assignment to an
  entry point's state: the dirty determinations run after the global evictions.
\<close>

theorem global_eviction_first:
  "take (length (allNodesToClean (nodesToClean env g files sources)))
     (trace (invalidateEntryPointsAndCacheOnFileChange env g files sources))
     = map SourcesFileCacheDelete (map fst (allNodesToClean (nodesToClean env g files sources)))
   \<and> list_all (\<lambda>e. \<not> isGlobalEviction e)
       (drop (length (allNodesToClean (nodesToClean env g files sources)))
          (trace (invalidateEntryPointsAndCacheOnFileChange env g files sources)))"
proof -
  let ?st = "nodesToClean env g files sources"
  let ?ks = "map fst (allNodesToClean ?st)"
  have ev: "events ?st = map SourcesFileCacheDelete ?ks"
    using events_cleanLoop
      [of 0 "\<lparr>allNodesToClean = fold (resolveChanged env g) files [],
              potentialStylesResources = [], sourcesFileCache = sources, events = []\<rparr>" env g]
    by (simp add: nodesToClean_def)
  from fold_markEntryPoint_effects
    [of "allNodesToClean ?st" "potentialStylesResources ?st" "graph_filter g isEntryPoint"
        "\<lparr>graph = g, isDirty = False, invalidatedEntryPoint = False, effects = events ?st\<rparr>"]
  obtain es where es:
    "trace (invalidateEntryPointsAndCacheOnFileChange env g files sources) = events ?st @ es"
    "list_all (\<lambda>e. \<not> isGlobalEviction e) es"
    by (auto simp: invalidateEntryPointsAndCacheOnFileChange_def Let_def)
  show ?thesis
    by (simp add: es ev)
qed

theorem global_eviction_first_witness:
  "allNodesToClean (nodesToClean sampleEnv sampleGraph [''/a.css''] Map.empty)
     = [(''/a.css'', 2), (''/a.ts'', 1)]
   \<and> take 2 (trace (invalidateEntryPointsAndCacheOnFileChange sampleEnv sampleGraph
                      [''/a.css''] Map.empty))
     = [SourcesFileCacheDelete ''/a.css'', SourcesFileCacheDelete ''/a.ts'']
   \<and> list_all (\<lambda>e. \<not> isGlobalEviction e)
       (drop 2 (trace (invalidateEntryPointsAndCacheOnFileChange sampleEnv sampleGraph
                         [''/a.css''] Map.empty)))"
proof -
  have m: "allNodesToClean (nodesToClean sampleEnv sampleGraph [''/a.css''] Map.empty)
      = [(''/a.css'', 2), (''/a.ts'', 1)]"
    by code_simp
  from global_eviction_first [of sampleEnv sampleGraph "[''/a.css'']" Map.empty] m
  show ?thesis
    by (simp add: numeral_2_eq_2)
qed


section \<open>Resource fan-out\<close>

lemma wellFormed_store:
  "wellFormed g \<Longrightarrow> r \<in> set (store g) \<Longrightarrow> r < length (arena g)"
  by (simp add: wellFormed_def list_all_iff)

lemma wellFormed_dependees:
  assumes "wellFormed g" and "n < length (arena g)" and "d \<in> set (dependees (arena g ! n))"
  shows "d < length (arena g)"
proof -
  have "arena g ! n \<in> set (arena g)"
    using assms(2) by simp
  with assms(1,3) show ?thesis
    unfolding wellFormed_def list_all_iff by blast
qed

lemma keys_addDependeeToClean_mono:
  "fst ` set (allNodesToClean st) \<subseteq> fst ` set (allNodesToClean (addDependeeToClean env g r st))"
  using addDependeeToClean_cases [of env g r st]
  by (elim disjE exE conjE) (simp_all add: Map_set_keys subset_insertI)

lemma keys_fold_addDependeeToClean_mono:
  "fst ` set (allNodesToClean st)
     \<subseteq> fst ` set (allNodesToClean (fold (addDependeeToClean env g) rs st))"
proof (induction rs arbitrary: st)
  case Nil
  then show ?case by simp
next
  case (Cons r rs)
  from keys_addDependeeToClean_mono [of st env g r] Cons [of "addDependeeToClean env g r st"]
  show ?case by auto
qed

lemma key_added:
  assumes "fileUrlPath env (url (arena g ! r)) = Some q" and "q \<noteq> []"
  shows "q \<in> fst ` set (allNodesToClean (addDependeeToClean env g r st))"
  using assms by (simp add: addDependeeToClean_def Let_def Map_set_keys)

lemma fold_key_added:
  assumes "d \<in> set rs" and "fileUrlPath env (url (arena g ! d)) = Some q" and "q \<noteq> []"
  shows "q \<in> fst ` set (allNodesToClean (fold (addDependeeToClean env g) rs st))"
  using assms(1)
proof (induction rs arbitrary: st)
  case Nil
  then show ?case by simp
next
  case (Cons r rs)
  show ?case
  proof (cases "d = r")
    case True
    with key_added [OF assms(2,3), of st]
    have "q \<in> fst ` set (allNodesToClean (addDependeeToClean env g r st))"
      by simp
    with keys_fold_addDependeeToClean_mono [of "addDependeeToClean env g r st" env g rs]
    show ?thesis by auto
  next
    case False
    with Cons.prems have "d \<in> set rs" by simp
    from Cons.IH [OF this] show ?thesis by simp
  qed
qed

lemma cleanNode_fans_out:
  assumes "\<not> endsWith (fst e) ''.ts''"
    and "d \<in> set (live g (dependees (arena g ! snd e)))"
    and "fileUrlPath env (url (arena g ! d)) = Some q" and "q \<noteq> []"
  shows "q \<in> fst ` set (allNodesToClean (cleanNode env g e st))"
  using assms(1) fold_key_added [OF assms(2,3,4)]
  by (simp add: cleanNode_def Let_def)

lemma liveEntries_Map_set:
  "liveEntries g m \<Longrightarrow> r < length (arena g) \<Longrightarrow> liveEntries g (Map_set p r m)"
  using set_Map_set_subset [of p r m] by (auto simp: liveEntries_def)

lemma entries_cleanLoop:
  assumes "keyedByPath env g (allNodesToClean st)" and "liveEntries g (allNodesToClean st)"
  shows "keyedByPath env g (allNodesToClean (cleanLoop env g i st))
       \<and> liveEntries g (allNodesToClean (cleanLoop env g i st))"
  by (rule cleanLoop_invariant [where P = "\<lambda>m. keyedByPath env g m \<and> liveEntries g m"])
     (simp_all add: assms keyedByPath_Map_set liveEntries_Map_set)

lemma entries_cleanNode:
  assumes "keyedByPath env g (allNodesToClean st)" and "liveEntries g (allNodesToClean st)"
  shows "keyedByPath env g (allNodesToClean (cleanNode env g e st))
       \<and> liveEntries g (allNodesToClean (cleanNode env g e st))"
  by (rule cleanNode_invariant [where P = "\<lambda>m. keyedByPath env g m \<and> liveEntries g m"])
     (simp_all add: assms keyedByPath_Map_set liveEntries_Map_set)

lemma entry_determined:
  assumes "uniquePaths env g"
    and "keyedByPath env g m" "liveEntries g m" "(k, n) \<in> set m"
    and "keyedByPath env g m'" "liveEntries g m'" "(k, n') \<in> set m'"
  shows "n = n'"
proof -
  have "n < length (arena g)" "fileUrlPath env (url (arena g ! n)) = Some k"
    using assms(2,3,4) by (auto simp: keyedByPath_def liveEntries_def)
  moreover have "n' < length (arena g)" "fileUrlPath env (url (arena g ! n')) = Some k"
    using assms(5,6,7) by (auto simp: keyedByPath_def liveEntries_def)
  ultimately show ?thesis
    using assms(1) by (simp add: uniquePaths_def)
qed

lemma keys_of_prefix:
  "prefix (map fst m) (map fst m') \<Longrightarrow> fst ` set m \<subseteq> fst ` set m'"
  using set_mono_prefix [of "map fst m" "map fst m'"] by simp

lemma fannedOut_cleanLoop:
  assumes "uniquePaths env g"
    and "keyedByPath env g (allNodesToClean st)" and "liveEntries g (allNodesToClean st)"
    and "i \<le> length (allNodesToClean st)"
  shows "fannedOutFrom env g i (allNodesToClean (cleanLoop env g i st))"
  using assms
proof (induction env g i st rule: cleanLoop.induct)
  case (1 env g i st)
  let ?m = "allNodesToClean st"
  show ?case
  proof (cases "i < length ?m")
    case True
    let ?st = "cleanNode env g (?m ! i) st"
    let ?final = "allNodesToClean (cleanLoop env g (Suc i) ?st)"
    have unfold: "cleanLoop env g i st = cleanLoop env g (Suc i) ?st"
      using True by (simp add: cleanLoop.simps [of env g i st])
    have inv1: "keyedByPath env g (allNodesToClean ?st)" "liveEntries g (allNodesToClean ?st)"
      using entries_cleanNode [OF "1.prems"(2,3)] by simp_all
    have invF: "keyedByPath env g ?final" "liveEntries g ?final"
      using entries_cleanLoop [OF inv1] by simp_all
    have p1: "prefix (map fst ?m) (map fst (allNodesToClean ?st))"
      by (rule prefix_keys_cleanNode)
    have p2: "prefix (map fst (allNodesToClean ?st)) (map fst ?final)"
      by (rule prefix_keys_cleanLoop)
    from p1 have "length ?m \<le> length (allNodesToClean ?st)"
      using prefix_length_le by fastforce
    with True have "Suc i \<le> length (allNodesToClean ?st)"
      by simp
    from "1.IH" [OF True "1.prems"(1) inv1 this]
    have ih: "fannedOutFrom env g (Suc i) ?final" .
    from p1 p2 have "prefix (map fst ?m) (map fst ?final)"
      by (rule prefix_order.trans)
    then obtain zs where zs: "map fst ?final = map fst ?m @ zs"
      by (auto simp: prefix_def)
    have lenF: "i < length ?final"
      using True zs by (metis length_append length_map trans_less_add1)
    have "map fst ?final ! i = map fst ?m ! i"
      using True by (simp add: zs nth_append)
    then have key: "fst (?final ! i) = fst (?m ! i)"
      using True lenF by simp
    have "(fst (?m ! i), snd (?m ! i)) \<in> set ?m"
      using True by simp
    moreover have "(fst (?m ! i), snd (?final ! i)) \<in> set ?final"
      using lenF key by (metis nth_mem prod.collapse)
    ultimately have val: "snd (?m ! i) = snd (?final ! i)"
      by (rule entry_determined [OF "1.prems"(1) "1.prems"(2,3) _ invF])
    have here: "q \<in> fst ` set ?final"
      if "\<not> endsWith (fst (?final ! i)) ''.ts''"
        and "d \<in> set (live g (dependees (arena g ! snd (?final ! i))))"
        and "fileUrlPath env (url (arena g ! d)) = Some q" and "q \<noteq> []" for d q
    proof -
      have "q \<in> fst ` set (allNodesToClean ?st)"
        using that by (intro cleanNode_fans_out [of "?m ! i" d g env q st]) (simp_all add: key val)
      with keys_of_prefix [OF p2] show ?thesis
        by blast
    qed
    show ?thesis
      unfolding unfold fannedOutFrom_def
    proof (intro allI impI ballI)
      fix j d q
      assume j: "i \<le> j \<and> j < length ?final \<and> \<not> endsWith (fst (?final ! j)) ''.ts''"
        and d: "d \<in> set (live g (dependees (arena g ! snd (?final ! j))))"
        and q: "fileUrlPath env (url (arena g ! d)) = Some q \<and> q \<noteq> []"
      show "q \<in> fst ` set ?final"
      proof (cases "j = i")
        case True
        with j d q here show ?thesis
          by blast
      next
        case False
        with j have "Suc i \<le> j \<and> j < length ?final \<and> \<not> endsWith (fst (?final ! j)) ''.ts''"
          by simp
        with ih d q show ?thesis
          unfolding fannedOutFrom_def by blast
      qed
    qed
  next
    case False
    then have stop: "cleanLoop env g i st = st"
      by (simp add: cleanLoop.simps [of env g i st])
    from False show ?thesis
      unfolding stop by (auto simp: fannedOutFrom_def)
  qed
qed

lemma key_has_node:
  assumes "uniquePaths env g" and "keyedByPath env g m" and "liveEntries g m"
    and "k \<in> fst ` set m" and "n < length (arena g)"
    and "fileUrlPath env (url (arena g ! n)) = Some k"
  shows "(k, n) \<in> set m"
proof -
  from assms(4) obtain n' where n': "(k, n') \<in> set m"
    by auto
  with assms(2,3) have "n' < length (arena g)" "fileUrlPath env (url (arena g ! n')) = Some k"
    by (auto simp: keyedByPath_def liveEntries_def)
  with assms(1,5,6) have "n = n'"
    by (simp add: uniquePaths_def)
  with n' show ?thesis
    by simp
qed

lemma fannedOut_entry:
  assumes "fannedOutFrom env g 0 m" and "(k, n) \<in> set m" and "\<not> endsWith k ''.ts''"
    and "d \<in> set (dependees (arena g ! n))" and "d < length (arena g)"
    and "fileUrlPath env (url (arena g ! d)) = Some q" and "q \<noteq> []"
  shows "q \<in> fst ` set m"
proof -
  from assms(2) obtain j where j: "j < length m" "m ! j = (k, n)"
    by (auto simp: in_set_conv_nth)
  have "d \<in> set (live g (dependees (arena g ! snd (m ! j))))"
    using assms(4,5) j by (simp add: live_def)
  with assms(1,3,6,7) j show ?thesis
    unfolding fannedOutFrom_def by (metis fst_conv le0)
qed

text \<open>
  C2. In a well-formed graph whose nodes have distinct paths, let the changed path \<open>p\<close>
  (not ending in \<^verbatim>\<open>.ts\<close>) have the node \<open>nodeP\<close>, let \<open>nodeS\<close> be a dependee of \<open>nodeP\<close>
  with a path not ending in \<^verbatim>\<open>.ts\<close>, and \<open>nodeT\<close> a dependee of \<open>nodeS\<close>. Then the pass
  for \<open>p\<close> pulls \<open>nodeS\<close> and then \<open>nodeT\<close> into the to-clean map, and an entry point
  that depends on \<open>nodeS\<close> or on \<open>nodeT\<close> is marked dirty: the function returns true and
  the entry point's state is \<^verbatim>\<open>STATE_PENDING\<close>, whether or not it depends on \<open>nodeP\<close>.
\<close>

theorem resource_fanout_transitive:
  assumes law: "\<forall>q. fileUrlPath env (fileUrl env q) = Some q"
    and wf: "wellFormed g" and unique: "uniquePaths env g"
    and partial: "graph_find g (\<lambda>node. fileUrl env p = url node) = Some nodeP"
      "\<not> endsWith p ''.ts''"
    and sheet: "nodeS \<in> set (dependees (arena g ! nodeP))"
      "fileUrlPath env (url (arena g ! nodeS)) = Some s" "s \<noteq> []" "\<not> endsWith s ''.ts''"
    and dependee: "nodeT \<in> set (dependees (arena g ! nodeS))"
      "fileUrlPath env (url (arena g ! nodeT)) = Some t" "t \<noteq> []"
    and target: "target \<in> set (graph_filter g isEntryPoint)"
      "nodeS \<in> set (dependents (arena g ! target)) \<or> nodeT \<in> set (dependents (arena g ! target))"
  shows "(s, nodeS) \<in> set (allNodesToClean (nodesToClean env g [p] sources))
    \<and> (t, nodeT) \<in> set (allNodesToClean (nodesToClean env g [p] sources))
    \<and> markedDirty env g [p] sources target
    \<and> returned (invalidateEntryPointsAndCacheOnFileChange env g [p] sources)
    \<and> state (arena (graphAfter (invalidateEntryPointsAndCacheOnFileChange env g [p] sources))
               ! target) = STATE_PENDING"
proof -
  let ?st0 = "\<lparr>allNodesToClean = [(p, nodeP)], potentialStylesResources = [],
               sourcesFileCache = sources, events = []\<rparr>"
  let ?m = "allNodesToClean (nodesToClean env g [p] sources)"
  let ?rs = "potentialStylesResources (nodesToClean env g [p] sources)"
  have run: "nodesToClean env g [p] sources = cleanLoop env g 0 ?st0"
    using partial(1) by (simp add: nodesToClean_def resolveChanged_def)
  from graph_find_Some [OF partial(1)]
  have P_store: "nodeP \<in> set (store g)" and P_url: "url (arena g ! nodeP) = fileUrl env p"
    by simp_all
  have P_live: "nodeP < length (arena g)"
    by (rule wellFormed_store [OF wf P_store])
  have S_live: "nodeS < length (arena g)"
    by (rule wellFormed_dependees [OF wf P_live sheet(1)])
  have T_live: "nodeT < length (arena g)"
    by (rule wellFormed_dependees [OF wf S_live dependee(1)])
  have P_path: "fileUrlPath env (url (arena g ! nodeP)) = Some p"
    using law P_url by simp
  have inv0: "keyedByPath env g (allNodesToClean ?st0)" "liveEntries g (allNodesToClean ?st0)"
    using P_path P_live by (simp_all add: keyedByPath_def liveEntries_def)
  have inv: "keyedByPath env g ?m" "liveEntries g ?m"
    using entries_cleanLoop [OF inv0, of 0] by (simp_all add: run)
  have fan: "fannedOutFrom env g 0 ?m"
    unfolding run by (rule fannedOut_cleanLoop [OF unique inv0]) simp
  have "prefix (map fst (allNodesToClean ?st0)) (map fst ?m)"
    unfolding run by (rule prefix_keys_cleanLoop)
  from keys_of_prefix [OF this] have "p \<in> fst ` set ?m"
    by simp
  then have P_in: "(p, nodeP) \<in> set ?m"
    by (rule key_has_node [OF unique inv _ P_live P_path])
  have "s \<in> fst ` set ?m"
    by (rule fannedOut_entry [OF fan P_in partial(2) sheet(1) S_live sheet(2,3)])
  then have S_in: "(s, nodeS) \<in> set ?m"
    by (rule key_has_node [OF unique inv _ S_live sheet(2)])
  have "t \<in> fst ` set ?m"
    by (rule fannedOut_entry [OF fan S_in sheet(4) dependee(1) T_live dependee(2,3)])
  then have T_in: "(t, nodeT) \<in> set ?m"
    by (rule key_has_node [OF unique inv _ T_live dependee(2)])
  have dirty: "dirtyBy g ?m ?rs target"
    using target(2) S_in T_in unfolding dirtyBy_def by force
  then have marked: "markedDirty env g [p] sources target"
    by (simp add: markedDirty_dirtyBy)
  have "target \<in> set (store g)"
    using target(1) by (simp add: graph_filter_def)
  then have E_live: "target < length (arena g)"
    by (rule wellFormed_store [OF wf])
  from fold_markEntryPoint_props
    [of g "\<lparr>graph = g, isDirty = False, invalidatedEntryPoint = False,
            effects = events (nodesToClean env g [p] sources)\<rparr>"
        ?m ?rs "graph_filter g isEntryPoint"]
  have "returned (invalidateEntryPointsAndCacheOnFileChange env g [p] sources)
      = (\<exists>ep \<in> set (graph_filter g isEntryPoint). dirtyBy g ?m ?rs ep)"
    and "\<And>r. state (arena (graphAfter
            (invalidateEntryPointsAndCacheOnFileChange env g [p] sources)) ! r)
        = (if r \<in> set (graph_filter g isEntryPoint) \<and> r < length (arena g) \<and> dirtyBy g ?m ?rs r
           then STATE_PENDING else state (arena g ! r))"
    by (simp_all add: invalidateEntryPointsAndCacheOnFileChange_def Let_def)
  with dirty target(1) E_live
  have "returned (invalidateEntryPointsAndCacheOnFileChange env g [p] sources)"
    and "state (arena (graphAfter (invalidateEntryPointsAndCacheOnFileChange env g [p] sources))
            ! target) = STATE_PENDING"
    by auto
  with S_in T_in marked show ?thesis
    by simp
qed



theorem resource_fanout_transitive_witness:
  "(\<forall>q. fileUrlPath sampleEnv (fileUrl sampleEnv q) = Some q)
   \<and> wellFormed sampleGraph \<and> uniquePaths sampleEnv sampleGraph
   \<and> graph_find sampleGraph (\<lambda>node. fileUrl sampleEnv ''/p.css'' = url node) = Some 3
   \<and> 2 \<in> set (dependees (arena sampleGraph ! 3))
   \<and> 1 \<in> set (dependees (arena sampleGraph ! 2))
   \<and> 0 \<in> set (graph_filter sampleGraph isEntryPoint)
   \<and> 1 \<in> set (dependents (arena sampleGraph ! 0))
   \<and> 3 \<notin> set (dependents (arena sampleGraph ! 0))
   \<and> (''/a.css'', 2) \<in> set (allNodesToClean (nodesToClean sampleEnv sampleGraph [''/p.css''] Map.empty))
   \<and> (''/a.ts'', 1) \<in> set (allNodesToClean (nodesToClean sampleEnv sampleGraph [''/p.css''] Map.empty))
   \<and> returned (invalidateEntryPointsAndCacheOnFileChange sampleEnv sampleGraph [''/p.css'']
                  Map.empty)
   \<and> state (arena (graphAfter (invalidateEntryPointsAndCacheOnFileChange sampleEnv sampleGraph
                                  [''/p.css''] Map.empty)) ! 0) = STATE_PENDING"
proof -
  have law: "\<forall>q. fileUrlPath sampleEnv (fileUrl sampleEnv q) = Some q"
    by (simp add: sampleEnv_def)
  have wf: "wellFormed sampleGraph"
    by code_simp
  have unique: "uniquePaths sampleEnv sampleGraph"
    unfolding uniquePaths_def sampleGraph_def
    by (simp add: sampleEnv_def sampleNode_def less_Suc_eq numeral_eq_Suc all_conj_distrib
        conj_disj_distribR)
  have p1: "graph_find sampleGraph (\<lambda>node. fileUrl sampleEnv ''/p.css'' = url node) = Some 3"
    by code_simp
  have p2: "\<not> endsWith ''/p.css'' ''.ts''"
    by code_simp
  have s1: "2 \<in> set (dependees (arena sampleGraph ! 3))"
    by code_simp
  have s2: "fileUrlPath sampleEnv (url (arena sampleGraph ! 2)) = Some ''/a.css''"
    by code_simp
  have s3: "''/a.css'' \<noteq> []"
    by simp
  have s4: "\<not> endsWith ''/a.css'' ''.ts''"
    by code_simp
  have d1: "1 \<in> set (dependees (arena sampleGraph ! 2))"
    by code_simp
  have d2: "fileUrlPath sampleEnv (url (arena sampleGraph ! 1)) = Some ''/a.ts''"
    by code_simp
  have d3: "''/a.ts'' \<noteq> []"
    by simp
  have t1: "0 \<in> set (graph_filter sampleGraph isEntryPoint)"
    by code_simp
  have t2: "1 \<in> set (dependents (arena sampleGraph ! 0))"
    by code_simp
  have t3: "3 \<notin> set (dependents (arena sampleGraph ! 0))"
    by code_simp
  note inst = resource_fanout_transitive
    [OF law wf unique p1 p2 s1 s2 s3 s4 d1 d2 d3 t1 disjI2 [OF t2], of Map.empty]
  show ?thesis
    by (intro conjI law wf unique p1 s1 d1 t1 t2 t3 conjunct1 [OF inst]
        conjunct1 [OF conjunct2 [OF inst]]
        conjunct1 [OF conjunct2 [OF conjunct2 [OF conjunct2 [OF inst]]]]
        conjunct2 [OF conjunct2 [OF conjunct2 [OF conjunct2 [OF inst]]]])
qed


section \<open>Registering nodes and edges\<close>

lemma set_Set_add [simp]: "set (Set_add x xs) = insert x (set xs)"
  by (auto simp: Set_add_def)

lemma grows_refl [simp]: "grows g g"
  by (simp add: grows_def)

lemma grows_trans:
  assumes "grows g g'" and "grows g' g''"
  shows "grows g g''"
  unfolding grows_def
proof (intro conjI allI impI)
  show "prefix (store g) (store g'')"
    using assms unfolding grows_def by (meson prefix_order.trans)
  show "length (arena g) \<le> length (arena g'')"
    using assms unfolding grows_def by linarith
next
  fix r
  assume r: "r < length (arena g)"
  then have r': "r < length (arena g')"
    using assms(1) unfolding grows_def by linarith
  from assms(1) r
  have 1: "url (arena g' ! r) = url (arena g ! r)"
    "set (dependents (arena g ! r)) \<subseteq> set (dependents (arena g' ! r))"
    "set (dependees (arena g ! r)) \<subseteq> set (dependees (arena g' ! r))"
    unfolding grows_def by blast+
  from assms(2) r'
  have 2: "url (arena g'' ! r) = url (arena g' ! r)"
    "set (dependents (arena g' ! r)) \<subseteq> set (dependents (arena g'' ! r))"
    "set (dependees (arena g' ! r)) \<subseteq> set (dependees (arena g'' ! r))"
    unfolding grows_def by blast+
  show "url (arena g'' ! r) = url (arena g ! r)"
    using 1 2 by simp
  show "set (dependents (arena g ! r)) \<subseteq> set (dependents (arena g'' ! r))"
    using 1 2 by blast
  show "set (dependees (arena g ! r)) \<subseteq> set (dependees (arena g'' ! r))"
    using 1 2 by blast
qed

lemma sameNodes_refl [simp]: "sameNodes g g"
  by (simp add: sameNodes_def)

lemma sameNodes_trans: "sameNodes g g' \<Longrightarrow> sameNodes g' g'' \<Longrightarrow> sameNodes g g''"
  by (simp add: sameNodes_def)

lemma sameNodes_graph_get: "sameNodes g g' \<Longrightarrow> graph_get g' u = graph_get g u"
  by (simp add: sameNodes_def graph_get_def)

lemma sameNodes_storeValid: "sameNodes g g' \<Longrightarrow> storeValid g \<Longrightarrow> storeValid g'"
  by (simp add: sameNodes_def storeValid_def)

lemma find_prefix_stable:
  assumes "find P xs = Some r" and "\<forall>x \<in> set xs. Q x = P x"
  shows "find Q (xs @ ys) = Some r"
  using assms by (induction xs) (auto split: if_splits)

lemma grows_graph_get:
  assumes "storeValid g" and "grows g g'" and "graph_get g u = Some r"
  shows "graph_get g' u = Some r"
proof -
  from assms(2) obtain zs where zs: "store g' = store g @ zs"
    by (auto simp: grows_def prefix_def)
  have "\<forall>x \<in> set (store g). (url (arena g' ! x) = u) = (url (arena g ! x) = u)"
    using assms(1,2) by (auto simp: storeValid_def grows_def list_all_iff)
  with assms(3) show ?thesis
    unfolding graph_get_def zs by (intro find_prefix_stable) auto
qed

lemma addEdge_nth:
  "arena (addEdge a b g) ! r
     = (let n1 = (if r = b \<and> b < length (arena g)
                  then (arena g ! b)\<lparr>dependees := Set_add a (dependees (arena g ! b))\<rparr>
                  else arena g ! r)
        in if r = a \<and> a < length (arena g)
           then n1\<lparr>dependents := Set_add b (dependents n1)\<rparr> else n1)"
  by (simp add: addEdge_def nth_update_node Let_def)

lemma addEdge_sameNodes: "sameNodes g (addEdge a b g)"
  by (simp add: sameNodes_def addEdge_nth Let_def) (simp add: addEdge_def)

lemma addEdge_grows: "grows g (addEdge a b g)"
  unfolding grows_def
  using addEdge_sameNodes [of g a b]
  by (auto simp: sameNodes_def addEdge_nth Let_def)

lemma addEdge_dependents:
  "a < length (arena g) \<Longrightarrow> b \<in> set (dependents (arena (addEdge a b g) ! a))"
  by (simp add: addEdge_nth Let_def)

lemma addEdge_dependees:
  "x \<noteq> b \<Longrightarrow> set (dependees (arena (addEdge a b g) ! x)) = set (dependees (arena g ! x))"
  by (simp add: addEdge_nth Let_def)

lemma dependsOn_sameNodes: "sameNodes g (dependsOn a bs g)"
  unfolding dependsOn_def
proof (induction bs arbitrary: g)
  case Nil
  then show ?case by simp
next
  case (Cons b bs)
  from addEdge_sameNodes [of g a b] Cons [of "addEdge a b g"] show ?case
    by (auto intro: sameNodes_trans)
qed

lemma dependsOn_grows: "grows g (dependsOn a bs g)"
  unfolding dependsOn_def
proof (induction bs arbitrary: g)
  case Nil
  then show ?case by simp
next
  case (Cons b bs)
  from addEdge_grows [of g a b] Cons [of "addEdge a b g"] show ?case
    by (auto intro: grows_trans)
qed

lemma grows_dependents:
  "grows g g' \<Longrightarrow> r < length (arena g) \<Longrightarrow> x \<in> set (dependents (arena g ! r))
   \<Longrightarrow> x \<in> set (dependents (arena g' ! r))"
  unfolding grows_def by blast

lemma dependsOn_dependents:
  assumes "a < length (arena g)" and "b \<in> set bs"
  shows "b \<in> set (dependents (arena (dependsOn a bs g) ! a))"
  using assms
proof (induction bs arbitrary: g)
  case Nil
  then show ?case by simp
next
  case (Cons c bs)
  let ?g = "addEdge a c g"
  have len: "a < length (arena ?g)"
    using Cons.prems(1) addEdge_sameNodes [of g a c] by (simp add: sameNodes_def)
  have unfold: "dependsOn a (c # bs) g = dependsOn a bs ?g"
    by (simp add: dependsOn_def)
  show ?case
  proof (cases "b = c")
    case True
    have "b \<in> set (dependents (arena ?g ! a))"
      using True addEdge_dependents [OF Cons.prems(1)] by simp
    with dependsOn_grows [of ?g a bs] len show ?thesis
      unfolding unfold by (rule grows_dependents)
  next
    case False
    with Cons.prems(2) have "b \<in> set bs" by simp
    from Cons.IH [OF len this] show ?thesis
      unfolding unfold .
  qed
qed

lemma dependsOn_dependees:
  assumes "x \<notin> set bs"
  shows "set (dependees (arena (dependsOn a bs g) ! x)) = set (dependees (arena g ! x))"
  using assms
proof (induction bs arbitrary: g)
  case Nil
  then show ?case by (simp add: dependsOn_def)
next
  case (Cons b bs)
  have unfold: "dependsOn a (b # bs) g = dependsOn a bs (addEdge a b g)"
    by (simp add: dependsOn_def)
  from Cons.prems have "x \<noteq> b" "x \<notin> set bs"
    by simp_all
  with Cons.IH [of "addEdge a b g"] show ?case
    unfolding unfold by (simp add: addEdge_dependees)
qed


lemma find_append_None: "find P xs = None \<Longrightarrow> find P (xs @ ys) = find P ys"
  by (induction xs) (auto split: if_splits)

lemma graph_put_props:
  assumes "graph_put n g = (r, g')"
  shows "r = length (arena g)" "arena g' = arena g @ [n]" "store g' = store g @ [r]"
  using assms by (auto simp: graph_put_def)

lemma getNode_props:
  assumes "storeValid (w_graph w)" and "getNode h f w = (r, w')"
  shows "storeValid (w_graph w')"
    and "grows (w_graph w) (w_graph w')"
    and "nodeOf h w' f = Some r"
    and "r < length (arena (w_graph w'))"
    and "\<forall>x < length (arena (w_graph w)). arena (w_graph w') ! x = arena (w_graph w) ! x"
proof -
  let ?u = "fileUrl (helpers h) (ensureUnixPath (helpers h) f)"
  let ?g = "w_graph w"
  have "storeValid (w_graph w') \<and> grows ?g (w_graph w') \<and> nodeOf h w' f = Some r
      \<and> r < length (arena (w_graph w'))
      \<and> (\<forall>x < length (arena ?g). arena (w_graph w') ! x = arena ?g ! x)"
  proof (cases "graph_get ?g ?u")
    case (Some node)
    with assms(2) have eq: "r = node" "w' = w"
      by (simp_all add: getNode_def)
    from Some have "node \<in> set (store ?g)"
      by (auto simp: graph_get_def find_Some_iff)
    with assms(1) have "node < length (arena ?g)"
      by (simp add: storeValid_def list_all_iff)
    with Some assms(1) show ?thesis
      by (simp add: eq nodeOf_def)
  next
    case None
    with assms(2) have r: "r = length (arena ?g)"
      and w': "w' = w\<lparr>w_graph := ?g\<lparr>arena := arena ?g @ [new_Node ?u],
                                       store := store ?g @ [length (arena ?g)]\<rparr>\<rparr>"
      by (auto simp: getNode_def graph_put_def)
    have valid: "storeValid (w_graph w')"
      using assms(1) unfolding w' storeValid_def list_all_iff by (auto simp: less_SucI)
    have grows: "grows ?g (w_graph w')"
      unfolding w' grows_def by (simp add: nth_append)
    from None have none: "\<forall>x \<in> set (store ?g). url (arena ?g ! x) \<noteq> ?u"
      by (simp add: graph_get_def find_None_iff)
    have "\<forall>x \<in> set (store ?g). url ((arena ?g @ [new_Node ?u]) ! x) \<noteq> ?u"
      using none assms(1) by (auto simp: storeValid_def list_all_iff nth_append)
    then have "find (\<lambda>x. url ((arena ?g @ [new_Node ?u]) ! x) = ?u) (store ?g) = None"
      by (simp add: find_None_iff)
    then have "nodeOf h w' f = Some r"
      unfolding nodeOf_def graph_get_def w' r
      by (simp add: find_append_None new_Node_def)
    with valid grows show ?thesis
      by (simp add: r w' nth_append)
  qed
  then show "storeValid (w_graph w')" "grows (w_graph w) (w_graph w')" "nodeOf h w' f = Some r"
    "r < length (arena (w_graph w'))"
    "\<forall>x < length (arena (w_graph w)). arena (w_graph w') ! x = arena (w_graph w) ! x"
    by blast+
qed

lemma getNodes_props:
  assumes "storeValid (w_graph w)" and "getNodes h fs w = (rs, w')"
  shows "storeValid (w_graph w') \<and> grows (w_graph w) (w_graph w')
    \<and> list_all2 (\<lambda>f r. nodeOf h w' f = Some r) fs rs
    \<and> (\<forall>x < length (arena (w_graph w)). arena (w_graph w') ! x = arena (w_graph w) ! x)"
  using assms
proof (induction fs arbitrary: w rs w')
  case Nil
  then show ?case by simp
next
  case (Cons f fs)
  obtain r w1 where first: "getNode h f w = (r, w1)"
    by (cases "getNode h f w")
  obtain rs' w2 where rest: "getNodes h fs w1 = (rs', w2)"
    by (cases "getNodes h fs w1")
  from Cons.prems(2) first rest have eq: "rs = r # rs'" "w' = w2"
    by simp_all
  note p1 = getNode_props [OF Cons.prems(1) first]
  from Cons.IH [OF p1(1) rest]
  have p2: "storeValid (w_graph w2)" "grows (w_graph w1) (w_graph w2)"
    "list_all2 (\<lambda>f r. nodeOf h w2 f = Some r) fs rs'"
    "\<forall>x < length (arena (w_graph w1)). arena (w_graph w2) ! x = arena (w_graph w1) ! x"
    by blast+
  have "nodeOf h w2 f = Some r"
    using grows_graph_get [OF p1(1) p2(2)] p1(3) by (simp add: nodeOf_def)
  moreover have "grows (w_graph w) (w_graph w2)"
    by (rule grows_trans [OF p1(2) p2(2)])
  moreover have "\<forall>x < length (arena (w_graph w)). arena (w_graph w2) ! x = arena (w_graph w) ! x"
  proof (intro allI impI)
    fix x
    assume x: "x < length (arena (w_graph w))"
    then have "x < length (arena (w_graph w1))"
      using p1(2) unfolding grows_def by linarith
    with p2(4) p1(5) x show "arena (w_graph w2) ! x = arena (w_graph w) ! x"
      by simp
  qed
  ultimately show ?case
    using p2(1,3) by (simp add: eq)
qed

lemma propagate_sameNodes: "sameNodes g (propagate ds n g)"
  by (simp add: propagate_def dependsOn_sameNodes)

lemma propagate_grows: "grows g (propagate ds n g)"
  by (simp add: propagate_def dependsOn_grows)

lemma propagate_dependees:
  "x \<notin> set ds \<Longrightarrow> set (dependees (arena (propagate ds n g) ! x)) = set (dependees (arena g ! x))"
  by (simp add: propagate_def dependsOn_dependees)

lemma fold_propagate_props:
  "sameNodes g (fold (propagate ds) ns g) \<and> grows g (fold (propagate ds) ns g)
   \<and> (x \<notin> set ds \<longrightarrow> set (dependees (arena (fold (propagate ds) ns g) ! x))
                       = set (dependees (arena g ! x)))"
proof (induction ns arbitrary: g)
  case Nil
  then show ?case by simp
next
  case (Cons n ns)
  from Cons [of "propagate ds n g"] propagate_sameNodes [of g ds n] propagate_grows [of g ds n]
    propagate_dependees [of x ds n g]
  show ?case
    by (auto intro: sameNodes_trans grows_trans)
qed

lemma fold_propagate_reaches:
  assumes "n \<in> set ns" and "n < length (arena g)" and "endsWith (url (arena g ! n)) ''.ts''"
    and "d \<in> set ds"
  shows "d \<in> set (dependents (arena (fold (propagate ds) ns g) ! n))"
  using assms(1,2,3)
proof (induction ns arbitrary: g)
  case Nil
  then show ?case by simp
next
  case (Cons m ns)
  let ?g = "propagate ds m g"
  have same: "sameNodes g ?g"
    by (rule propagate_sameNodes)
  then have len: "n < length (arena ?g)" and ts: "endsWith (url (arena ?g ! n)) ''.ts''"
    using Cons.prems(2,3) by (simp_all add: sameNodes_def)
  show ?case
  proof (cases "n = m")
    case True
    have "d \<in> set (dependents (arena ?g ! n))"
      using True Cons.prems(2,3) assms(4) by (simp add: propagate_def dependsOn_dependents)
    moreover have "grows ?g (fold (propagate ds) ns ?g)"
      using fold_propagate_props [of ?g ds ns] by blast
    ultimately show ?thesis
      using len by (simp add: grows_dependents)
  next
    case False
    with Cons.prems(1) have "n \<in> set ns" by simp
    from Cons.IH [OF this len ts] show ?thesis by simp
  qed
qed


section \<open>readResource on a stylesheet\<close>

lemma list_all2_witness:
  "list_all2 P xs ys \<Longrightarrow> x \<in> set xs \<Longrightarrow> \<exists>y \<in> set ys. P x y"
  by (induction rule: list_all2_induct) auto

lemma bundleStylesheet_edges:
  assumes "storeValid (w_graph w)"
  shows "\<exists>node. nodeOf h (snd (bundleStylesheet h sp f w)) f = Some node
    \<and> (\<forall>rf \<in> set (referencedFiles (bundleFile sp f)).
          \<exists>dep. nodeOf h (snd (bundleStylesheet h sp f w)) rf = Some dep
            \<and> (dep \<noteq> node \<longrightarrow>
                 dep \<in> set (dependents (arena (w_graph (snd (bundleStylesheet h sp f w))) ! node))
                 \<and> (\<forall>n \<in> set (dependees
                                (arena (w_graph (snd (bundleStylesheet h sp f w))) ! node)).
                       n < length (arena (w_graph (snd (bundleStylesheet h sp f w))))
                       \<and> endsWith (url (arena (w_graph (snd (bundleStylesheet h sp f w))) ! n))
                            ''.ts''
                       \<longrightarrow> dep \<in> set (dependents
                              (arena (w_graph (snd (bundleStylesheet h sp f w))) ! n)))))"
proof -
  let ?refs = "referencedFiles (bundleFile sp f)"
  obtain node w1 where first: "getNode h f w = (node, w1)"
    by (cases "getNode h f w")
  obtain found w2 where rest: "getNodes h ?refs w1 = (found, w2)"
    by (cases "getNodes h ?refs w1")
  let ?ds = "filter (\<lambda>n. n \<noteq> node) found"
  let ?g1 = "dependsOn node ?ds (w_graph w2)"
  let ?ns = "live ?g1 (dependees (arena ?g1 ! node))"
  let ?g2 = "fold (propagate ?ds) ?ns ?g1"
  let ?w = "snd (bundleStylesheet h sp f w)"
  have graph: "w_graph ?w = ?g2"
    by (simp add: bundleStylesheet_def first rest Let_def)
  note p1 = getNode_props [OF assms first]
  from getNodes_props [OF p1(1) rest]
  have p2: "storeValid (w_graph w2)" "grows (w_graph w1) (w_graph w2)"
    "list_all2 (\<lambda>f r. nodeOf h w2 f = Some r) ?refs found"
    by blast+
  have s1: "sameNodes (w_graph w2) ?g1"
    by (rule dependsOn_sameNodes)
  have s2: "sameNodes ?g1 ?g2" and g2: "grows ?g1 ?g2"
    and keep: "set (dependees (arena ?g2 ! node)) = set (dependees (arena ?g1 ! node))"
    using fold_propagate_props [of ?g1 ?ds ?ns node] by simp_all
  have s: "sameNodes (w_graph w2) ?g2"
    by (rule sameNodes_trans [OF s1 s2])
  have get: "nodeOf h ?w x = nodeOf h w2 x" for x
    using sameNodes_graph_get [OF s] by (simp add: nodeOf_def graph)
  have node: "nodeOf h w2 f = Some node"
    using grows_graph_get [OF p1(1) p2(2)] p1(3) by (simp add: nodeOf_def)
  have len1: "node < length (arena (w_graph w2))"
    using p1(4) p2(2) unfolding grows_def by linarith
  then have len: "node < length (arena ?g1)"
    using s1 by (simp add: sameNodes_def)
  have deps: "dep \<in> set (dependents (arena ?g2 ! node))
      \<and> (\<forall>n \<in> set (dependees (arena ?g2 ! node)).
            n < length (arena ?g2) \<and> endsWith (url (arena ?g2 ! n)) ''.ts''
            \<longrightarrow> dep \<in> set (dependents (arena ?g2 ! n)))"
    if dep: "dep \<in> set found" "dep \<noteq> node" for dep
  proof (intro conjI ballI impI)
    from dep have in_ds: "dep \<in> set ?ds"
      by simp
    have "dep \<in> set (dependents (arena ?g1 ! node))"
      by (rule dependsOn_dependents [OF len1 in_ds])
    with g2 len show "dep \<in> set (dependents (arena ?g2 ! node))"
      by (rule grows_dependents)
    fix n
    assume n: "n \<in> set (dependees (arena ?g2 ! node))"
      and "n < length (arena ?g2) \<and> endsWith (url (arena ?g2 ! n)) ''.ts''"
    then have n1: "n < length (arena ?g1)" "endsWith (url (arena ?g1 ! n)) ''.ts''"
      using s2 by (simp_all add: sameNodes_def)
    from n keep n1(1) have "n \<in> set ?ns"
      by (simp add: live_def)
    from fold_propagate_reaches [OF this n1 in_ds]
    show "dep \<in> set (dependents (arena ?g2 ! n))" .
  qed
  have "\<exists>dep. nodeOf h ?w rf = Some dep
      \<and> (dep \<noteq> node \<longrightarrow>
           dep \<in> set (dependents (arena ?g2 ! node))
           \<and> (\<forall>n \<in> set (dependees (arena ?g2 ! node)).
                 n < length (arena ?g2) \<and> endsWith (url (arena ?g2 ! n)) ''.ts''
                 \<longrightarrow> dep \<in> set (dependents (arena ?g2 ! n))))"
    if rf: "rf \<in> set ?refs" for rf
  proof -
    from list_all2_witness [OF p2(3) rf]
    obtain dep where dep: "dep \<in> set found" "nodeOf h w2 rf = Some dep"
      by blast
    show ?thesis
    proof (rule exI [of _ dep], intro conjI impI)
      show "nodeOf h ?w rf = Some dep"
        using get [of rf] dep(2) by simp
    next
      assume "dep \<noteq> node"
      from deps [OF dep(1) this]
      show "dep \<in> set (dependents (arena ?g2 ! node))"
        by (rule conjunct1)
    next
      assume "dep \<noteq> node"
      from deps [OF dep(1) this]
      show "\<forall>n \<in> set (dependees (arena ?g2 ! node)).
          n < length (arena ?g2) \<and> endsWith (url (arena ?g2 ! n)) ''.ts''
          \<longrightarrow> dep \<in> set (dependents (arena ?g2 ! n))"
        by (rule conjunct2)
    qed
  qed
  note each = this
  show ?thesis
    unfolding graph
  proof (rule exI [of _ node], intro conjI ballI)
    show "nodeOf h ?w f = Some node"
      using get [of f] node by simp
  next
    fix rf
    assume "rf \<in> set ?refs"
    then show "\<exists>dep. nodeOf h ?w rf = Some dep
      \<and> (dep \<noteq> node \<longrightarrow>
           dep \<in> set (dependents (arena ?g2 ! node))
           \<and> (\<forall>n \<in> set (dependees (arena ?g2 ! node)).
                 n < length (arena ?g2) \<and> endsWith (url (arena ?g2 ! n)) ''.ts''
                 \<longrightarrow> dep \<in> set (dependents (arena ?g2 ! n))))"
      by (rule each)
  qed
qed

lemma addDependee_storeValid:
  assumes "storeValid (w_graph w)"
  shows "storeValid (w_graph (addDependee h f w))"
proof -
  obtain node w1 where first: "getNode h f w = (node, w1)"
    by (cases "getNode h f w")
  have "storeValid (w_graph w1)"
    by (rule getNode_props(1) [OF assms first])
  with dependsOn_sameNodes [of "w_graph w1" "entryPoint h" "[node]"] show ?thesis
    by (simp add: addDependee_def first sameNodes_storeValid)
qed

lemma readResource_stylesheet:
  assumes "knownContent (w_sourcesFileCache w) f = None"
    and "host_fileExists (compilerHost h) f"
    and "\<not> isTemplateExtension (extname (helpers h) f)"
    and "processor h = Some sp"
  shows "\<exists>w3. storeValid (w_graph w3) = storeValid (w_graph (addDependee h f w))
    \<and> w_graph w3 = w_graph (addDependee h f w)
    \<and> readResource h f w = bundleStylesheet h sp f w3"
proof -
  let ?w1 = "addDependee h f w"
  obtain entry c where goc: "getOrCreate f (w_sourcesFileCache ?w1) = (entry, c)"
    by (cases "getOrCreate f (w_sourcesFileCache ?w1)")
  have "content entry = None"
    using assms(1) goc
    by (auto simp: knownContent_def getOrCreate_def emptyEntry_def split: option.splits)
  then have "readResource h f w
      = bundleStylesheet h sp f
          (?w1\<lparr>w_sourcesFileCache := c,
                w_hostCalls := w_hostCalls (?w1\<lparr>w_sourcesFileCache := c\<rparr>) @ [HostFileExists f]\<rparr>)"
    using assms(2,3,4) goc by (simp add: readResource_def Let_def)
  then show ?thesis
    by (intro exI [of _ "?w1\<lparr>w_sourcesFileCache := c,
        w_hostCalls := w_hostCalls (?w1\<lparr>w_sourcesFileCache := c\<rparr>) @ [HostFileExists f]\<rparr>"])
       simp
qed

text \<open>
  C9. Let \<^verbatim>\<open>readResource\<close> be called for a file without cached content that the underlying
  host says exists, whose extension is not one of a template, with a stylesheet processor
  at hand and every registered node in the arena. Afterwards the graph holds a node for
  the file and a node for every referenced file the bundler reported; every such node
  other than the stylesheet's own is among the dependents of the stylesheet's node, and
  among the dependents of every dependee of the stylesheet's node whose identifier ends
  in \<^verbatim>\<open>.ts\<close>. This holds whether the call returns or throws for the bundler's errors;
  without errors it returns the bundle's contents.
\<close>

theorem readResource_registers_edges:
  assumes "storeValid (w_graph w)"
    and "knownContent (w_sourcesFileCache w) f = None"
    and "host_fileExists (compilerHost h) f"
    and "\<not> isTemplateExtension (extname (helpers h) f)"
    and "processor h = Some sp"
  shows "(\<exists>node. nodeOf h (snd (readResource h f w)) f = Some node
      \<and> (\<forall>rf \<in> set (referencedFiles (bundleFile sp f)).
            \<exists>dep. nodeOf h (snd (readResource h f w)) rf = Some dep
              \<and> (dep \<noteq> node \<longrightarrow>
                   dep \<in> set (dependents (arena (w_graph (snd (readResource h f w))) ! node))
                   \<and> (\<forall>n \<in> set (dependees (arena (w_graph (snd (readResource h f w))) ! node)).
                         n < length (arena (w_graph (snd (readResource h f w))))
                         \<and> endsWith (url (arena (w_graph (snd (readResource h f w))) ! n)) ''.ts''
                         \<longrightarrow> dep \<in> set (dependents
                                (arena (w_graph (snd (readResource h f w))) ! n))))))
    \<and> (errors (bundleFile sp f) = []
       \<longrightarrow> fst (readResource h f w) = Inr (Some (contents (bundleFile sp f))))"
proof -
  from readResource_stylesheet [OF assms(2,3,4,5)] obtain w3
    where w3: "w_graph w3 = w_graph (addDependee h f w)"
      "readResource h f w = bundleStylesheet h sp f w3"
    by blast
  have valid: "storeValid (w_graph w3)"
    unfolding w3(1) by (rule addDependee_storeValid [OF assms(1)])
  have "errors (bundleFile sp f) = []
      \<longrightarrow> fst (bundleStylesheet h sp f w3) = Inr (Some (contents (bundleFile sp f)))"
    by (simp add: bundleStylesheet_def Let_def split: prod.splits)
  with bundleStylesheet_edges [OF valid, of h sp f] show ?thesis
    unfolding w3(2) by (rule conjI)
qed

theorem readResource_registers_edges_witness:
  "storeValid (w_graph sampleWorld)
   \<and> knownContent (w_sourcesFileCache sampleWorld) ''/a.css'' = None
   \<and> \<not> isTemplateExtension (extname (helpers sampleHost) ''/a.css'')
   \<and> referencedFiles (bundleFile sampleProcessor ''/a.css'') = [''/a.css'', ''/p.css'']
   \<and> nodeOf sampleHost bundledWorld ''/a.css'' = Some 2
   \<and> nodeOf sampleHost bundledWorld ''/p.css'' = Some 3
   \<and> 3 \<in> set (dependents (arena (w_graph bundledWorld) ! 2))
   \<and> 1 \<in> set (dependees (arena (w_graph bundledWorld) ! 2))
   \<and> endsWith (url (arena (w_graph bundledWorld) ! 1)) ''.ts''
   \<and> 3 \<in> set (dependents (arena (w_graph bundledWorld) ! 1))
   \<and> fst (readResource sampleHost ''/a.css'' sampleWorld) = Inr (Some ''css'')"
proof -
  have h1: "storeValid (w_graph sampleWorld)"
    by code_simp
  have h2: "knownContent (w_sourcesFileCache sampleWorld) ''/a.css'' = None"
    by code_simp
  have h3: "host_fileExists (compilerHost sampleHost) ''/a.css''"
    by code_simp
  have h4: "\<not> isTemplateExtension (extname (helpers sampleHost) ''/a.css'')"
    by code_simp
  have h5: "processor sampleHost = Some sampleProcessor"
    by (simp add: sampleHost_def)
  have refs: "referencedFiles (bundleFile sampleProcessor ''/a.css'') = [''/a.css'', ''/p.css'']"
    by code_simp
  have noerr: "errors (bundleFile sampleProcessor ''/a.css'') = []"
    by code_simp
  have css: "contents (bundleFile sampleProcessor ''/a.css'') = ''css''"
    by code_simp
  have n1: "nodeOf sampleHost bundledWorld ''/a.css'' = Some 2"
    by code_simp
  have n2: "nodeOf sampleHost bundledWorld ''/p.css'' = Some 3"
    by code_simp
  have e1: "1 \<in> set (dependees (arena (w_graph bundledWorld) ! 2))"
    by code_simp
  have e2: "1 < length (arena (w_graph bundledWorld))"
    by code_simp
  have e3: "endsWith (url (arena (w_graph bundledWorld) ! 1)) ''.ts''"
    by code_simp
  note inst = readResource_registers_edges [OF h1 h2 h3 h4 h5, folded bundledWorld_def]
  from inst obtain node where node: "nodeOf sampleHost bundledWorld ''/a.css'' = Some node"
    and each: "\<forall>rf \<in> set (referencedFiles (bundleFile sampleProcessor ''/a.css'')).
        \<exists>dep. nodeOf sampleHost bundledWorld rf = Some dep
          \<and> (dep \<noteq> node \<longrightarrow>
               dep \<in> set (dependents (arena (w_graph bundledWorld) ! node))
               \<and> (\<forall>n \<in> set (dependees (arena (w_graph bundledWorld) ! node)).
                     n < length (arena (w_graph bundledWorld))
                     \<and> endsWith (url (arena (w_graph bundledWorld) ! n)) ''.ts''
                     \<longrightarrow> dep \<in> set (dependents (arena (w_graph bundledWorld) ! n))))"
    by blast
  from node n1 have node2: "node = 2"
    by simp
  from each refs obtain dep where dep: "nodeOf sampleHost bundledWorld ''/p.css'' = Some dep"
    "dep \<noteq> node \<longrightarrow>
       dep \<in> set (dependents (arena (w_graph bundledWorld) ! node))
       \<and> (\<forall>n \<in> set (dependees (arena (w_graph bundledWorld) ! node)).
             n < length (arena (w_graph bundledWorld))
             \<and> endsWith (url (arena (w_graph bundledWorld) ! n)) ''.ts''
             \<longrightarrow> dep \<in> set (dependents (arena (w_graph bundledWorld) ! n)))"
    by auto
  from dep(1) n2 have dep3: "dep = 3"
    by simp
  from dep(2) have r1: "3 \<in> set (dependents (arena (w_graph bundledWorld) ! 2))"
    and r2: "\<forall>n \<in> set (dependees (arena (w_graph bundledWorld) ! 2)).
        n < length (arena (w_graph bundledWorld))
        \<and> endsWith (url (arena (w_graph bundledWorld) ! n)) ''.ts''
        \<longrightarrow> 3 \<in> set (dependents (arena (w_graph bundledWorld) ! n))"
    unfolding dep3 node2 by simp_all
  from r2 e1 e2 e3 have r3: "3 \<in> set (dependents (arena (w_graph bundledWorld) ! 1))"
    by blast
  from inst noerr css
  have r4: "fst (readResource sampleHost ''/a.css'' sampleWorld) = Inr (Some ''css'')"
    by simp
  from h1 h2 h4 refs n1 n2 r1 e1 e3 r3 r4 show ?thesis
    by simp
qed


end
